theory Spec2Isabelle
  imports Main "HOL-Library.List_Lexorder" "HOL-Library.Char_ord"
begin

section \<open>The multi-ingester pipeline engine\<close>

text \<open>
  A shallow embedding of the core of \<^verbatim>\<open>monitoring/multi-ingester\<close>: the dedup store
  (\<^verbatim>\<open>internal/store\<close>), the retry primitive (\<^verbatim>\<open>internal/util\<close>), the rule engine
  (\<^verbatim>\<open>internal/postprocess\<close>) and one cycle of the orchestrator (\<^verbatim>\<open>cmd/main.go\<close>).

  Conventions. A \<^verbatim>\<open>time.Time\<close> and a \<^verbatim>\<open>time.Duration\<close> are integers counting
  nanoseconds. Every function that reads \<^verbatim>\<open>time.Now()\<close> takes the reading as an
  argument \<open>now\<close>; a call that holds the store's mutex is one instant. A Go string is a
  list of bytes. Mutation is explicit state passing: an operation returns the new state.
\<close>

subsection \<open>Errors\<close>

text \<open>
  The \<^verbatim>\<open>error\<close> values that the modelled functions return: a failure of an operation
  with its message, the two values of \<^verbatim>\<open>ctx.Err()\<close>, the \<^verbatim>\<open>"retry: exhausted"\<close>
  error, and a pattern that \<^verbatim>\<open>regexp.Compile\<close> rejects.
\<close>

datatype error = Failure string | Canceled | DeadlineExceeded | RetryExhausted | BadPattern string

subsection \<open>Dedup store: a TTL-bound LRU of seen keys\<close>

text \<open>
  \<^verbatim>\<open>type entry struct { key string; exp time.Time }\<close>
\<close>

record entry =
  key :: string
  exp :: int

text \<open>
  \<^verbatim>\<open>type Dedup struct { mu; cap int; ttl time.Duration; ll *list.List; items map[string]*list.Element }\<close>

  \<open>ll\<close> is the recency list, most recent at the front. \<open>items\<close> maps a key to its
  list element; the model stores the value that the element pointer leads to, so the
  assignment \<^verbatim>\<open>el.Value = en\<close> of \<^verbatim>\<open>Mark\<close> updates both fields. The mutex makes each
  operation atomic and has no field here. An expiry \<^verbatim>\<open>time.Now().Add(d.ttl)\<close> is the
  sum \<open>now + ttl\<close>: \<^verbatim>\<open>Time.Add\<close> does not wrap at the clock values a process sees.
\<close>

record Dedup =
  cap :: int
  ttl :: int
  ll :: "entry list"
  items :: "string \<rightharpoonup> entry"

definition Hour :: int where
  "Hour = 3600 * 1000000000"

definition NewDedup :: "int \<Rightarrow> int \<Rightarrow> Dedup" where
  "NewDedup maxKeys ttl0 =
     (let maxKeys' = (if maxKeys \<le> 0 then 10000 else maxKeys);
          ttl' = (if ttl0 \<le> 0 then 24 * Hour else ttl0)
      in \<lparr>cap = maxKeys', ttl = ttl', ll = [], items = Map.empty\<rparr>)"

text \<open>
  \<^verbatim>\<open>Seen\<close>: a found, unexpired element is moved to the front (\<^verbatim>\<open>MoveToFront\<close>);
  a found, expired one is removed from the list and the map. The list holds each key
  once (\<open>dedup_wf\<close> below), so the element \<^verbatim>\<open>el\<close> is the one list element equal to its
  value \<open>en\<close>, and \<open>remove1 en\<close> unlinks it. The result pairs the new store with the
  returned boolean.
\<close>

definition Seen :: "Dedup \<Rightarrow> int \<Rightarrow> string \<Rightarrow> Dedup \<times> bool" where
  "Seen d now k =
     (case items d k of
        Some en \<Rightarrow>
          if now < exp en then (d\<lparr>ll := en # remove1 en (ll d)\<rparr>, True)
          else (d\<lparr>ll := remove1 en (ll d), items := (items d)(k := None)\<rparr>, False)
      | None \<Rightarrow> (d, False))"

text \<open>
  The first loop of \<^verbatim>\<open>Mark\<close>: \<^verbatim>\<open>for d.ll.Len() > d.cap\<close>, removing the back element
  (\<^verbatim>\<open>t == nil\<close> breaks out).
\<close>

function evict_over_cap :: "Dedup \<Rightarrow> Dedup" where
  "evict_over_cap d =
     (if int (length (ll d)) > cap d then
        (if ll d = [] then d
         else let old = last (ll d)
              in evict_over_cap (d\<lparr>ll := butlast (ll d), items := (items d)(key old := None)\<rparr>))
      else d)"
  by pat_completeness auto
termination
  apply (relation "measure (\<lambda>d. length (ll d))")
   apply simp
  apply (simp add: Let_def)
  done

text \<open>
  The second loop of \<^verbatim>\<open>Mark\<close>: the soft cleanup, which removes back elements as long
  as the back element is expired.
\<close>

function sweep_expired :: "Dedup \<Rightarrow> int \<Rightarrow> Dedup" where
  "sweep_expired d now =
     (if ll d = [] then d
      else let t = last (ll d)
           in if now < exp t then d
              else sweep_expired (d\<lparr>ll := butlast (ll d), items := (items d)(key t := None)\<rparr>) now)"
  by pat_completeness auto
termination
  apply (relation "measure (\<lambda>p. length (ll (fst p)))")
   apply simp
  apply (simp add: Let_def)
  done

declare evict_over_cap.simps [simp del]
declare sweep_expired.simps [simp del]

definition Mark :: "Dedup \<Rightarrow> int \<Rightarrow> string \<Rightarrow> Dedup" where
  "Mark d now k =
     (case items d k of
        Some en \<Rightarrow>
          let en' = en\<lparr>exp := now + ttl d\<rparr>
          in d\<lparr>ll := en' # remove1 en (ll d), items := (items d)(k \<mapsto> en')\<rparr>
      | None \<Rightarrow>
          let el = \<lparr>key = k, exp = now + ttl d\<rparr>;
              d1 = d\<lparr>ll := el # ll d, items := (items d)(k \<mapsto> el)\<rparr>
          in sweep_expired (evict_over_cap d1) now)"

text \<open>
  The representation invariant of the store: capacity and TTL are positive (as
  \<^verbatim>\<open>NewDedup\<close> makes them), the list holds each key once, and the map is the index of
  the list by key. \<open>dedup_inv\<close> adds the capacity bound.
\<close>

definition by_key :: "entry list \<Rightarrow> string \<rightharpoonup> entry" where
  "by_key l = map_of (map (\<lambda>e. (key e, e)) l)"

definition dedup_wf :: "Dedup \<Rightarrow> bool" where
  "dedup_wf d \<longleftrightarrow>
     0 < cap d \<and> 0 < ttl d \<and> distinct (map key (ll d)) \<and> items d = by_key (ll d)"

definition dedup_inv :: "Dedup \<Rightarrow> bool" where
  "dedup_inv d \<longleftrightarrow> dedup_wf d \<and> int (length (ll d)) \<le> cap d"

text \<open>A client's calls on the store, each with the clock reading of the call.\<close>

datatype op = OpSeen string int | OpMark string int

fun step :: "Dedup \<Rightarrow> op \<Rightarrow> Dedup" where
  "step d (OpSeen k now) = fst (Seen d now k)"
| "step d (OpMark k now) = Mark d now k"

fun op_time :: "op \<Rightarrow> int" where
  "op_time (OpSeen k now) = now"
| "op_time (OpMark k now) = now"

fun marks_key :: "string \<Rightarrow> op \<Rightarrow> bool" where
  "marks_key k (OpSeen k' now) = False"
| "marks_key k (OpMark k' now) = (k' = k)"

definition run_ops :: "Dedup \<Rightarrow> op list \<Rightarrow> Dedup" where
  "run_ops d ops = foldl step d ops"

text \<open>
  No call of a run evicts for capacity: every \<^verbatim>\<open>Mark\<close> of a key that is not in the
  store finds the store below its capacity, so that the body of its first loop does not
  run.
\<close>

fun no_capacity_eviction :: "Dedup \<Rightarrow> op list \<Rightarrow> bool" where
  "no_capacity_eviction d [] = True"
| "no_capacity_eviction d (OpSeen k now # ops) = no_capacity_eviction (step d (OpSeen k now)) ops"
| "no_capacity_eviction d (OpMark k now # ops) =
     ((items d k = None \<longrightarrow> int (length (ll d)) < cap d) \<and>
      no_capacity_eviction (step d (OpMark k now)) ops)"

text \<open>
  Ghost history for the LRU property: the keys that a run of calls touches, in the
  order of the calls. A \<^verbatim>\<open>Mark\<close> touches its key; a \<^verbatim>\<open>Seen\<close> touches its key when
  it returns true. \<open>recency h\<close> lists the keys of a history by their most recent touch,
  the most recent first.
\<close>

fun touched :: "Dedup \<Rightarrow> op \<Rightarrow> string list" where
  "touched d (OpSeen k now) = (if snd (Seen d now k) then [k] else [])"
| "touched d (OpMark k now) = [k]"

fun touch_log :: "Dedup \<Rightarrow> op list \<Rightarrow> string list" where
  "touch_log d [] = []"
| "touch_log d (o1 # ops) = touched d o1 @ touch_log (step d o1) ops"

definition recency :: "string list \<Rightarrow> string list" where
  "recency h = rev (remdups h)"

definition in_recency_order :: "Dedup \<Rightarrow> string list \<Rightarrow> bool" where
  "in_recency_order d h \<longleftrightarrow>
     map key (ll d) = filter (\<lambda>k. k \<in> key ` set (ll d)) (recency h)"

subsection \<open>Backoff retry\<close>

text \<open>
  What \<^verbatim>\<open>Retry\<close> observes of its \<^verbatim>\<open>context.Context\<close>: \<open>done_first i\<close> says that, in
  the \<^verbatim>\<open>select\<close> before attempt \<open>i\<close>, \<^verbatim>\<open>ctx.Done()\<close> is ready before the timer
  \<^verbatim>\<open>time.After(d)\<close>; \<open>ctx_err\<close> is the value of \<^verbatim>\<open>ctx.Err()\<close> then.
\<close>

record Ctx =
  done_first :: "nat \<Rightarrow> bool"
  ctx_err :: error

text \<open>
  The observable behaviour of one \<^verbatim>\<open>Retry\<close>: the calls of the operation (numbered
  from 0), the delays slept in full, and a delay cut short by cancellation.
\<close>

datatype event = Call nat | Sleep int | Abort int

text \<open>
  A \<^verbatim>\<open>time.Duration\<close> is an \<^verbatim>\<open>int64\<close>: \<^verbatim>\<open>d *= 2\<close> wraps around. The delays
  that \<^verbatim>\<open>Retry\<close> is given are integers of that range.
\<close>

definition wrap64 :: "int \<Rightarrow> int" where
  "wrap64 x = (x + 2 ^ 63) mod 2 ^ 64 - 2 ^ 63"

text \<open>
  The delay update after a failed attempt that is not the last:
  \<^verbatim>\<open>if d < max { d *= 2; if d > max { d = max } }\<close>.
\<close>

definition next_delay :: "int \<Rightarrow> int \<Rightarrow> int" where
  "next_delay mx d =
     (if d < mx then (let d2 = wrap64 (d * 2) in if d2 > mx then mx else d2) else d)"

text \<open>
  The \<^verbatim>\<open>for\<close> loop of \<^verbatim>\<open>Retry\<close> from iteration \<open>i\<close> with current delay \<open>d\<close>. The
  operation \<open>fn\<close> is given by the outcome of its \<open>i\<close>-th call (\<open>None\<close> is \<^verbatim>\<open>nil\<close>);
  each iteration that reaches the call makes exactly one, so the call number is the
  loop index. The result pairs the returned error with the events from \<open>i\<close> on.
\<close>

function retry_loop ::
  "Ctx \<Rightarrow> int \<Rightarrow> int \<Rightarrow> (nat \<Rightarrow> error option) \<Rightarrow> nat \<Rightarrow> int \<Rightarrow> error option \<times> event list"
where
  "retry_loop ctx attempts mx fn i d =
     (if int i < attempts then
        (if i > 0 \<and> done_first ctx i then (Some (ctx_err ctx), [Abort d])
         else
           let waited = (if i > 0 then [Sleep d] else [])
           in (case fn i of
                 Some err \<Rightarrow>
                   if int i = attempts - 1 then (Some err, waited @ [Call i])
                   else
                     let (r, tr) = retry_loop ctx attempts mx fn (i + 1) (next_delay mx d)
                     in (r, waited @ [Call i] @ tr)
               | None \<Rightarrow> (None, waited @ [Call i])))
      else (Some RetryExhausted, []))"
  by pat_completeness auto
termination
  apply (relation "measure (\<lambda>(ctx, attempts, mx, fn, i, d). nat (attempts - int i))")
   apply simp
  apply simp
  done

declare retry_loop.simps [simp del]

definition Retry ::
  "Ctx \<Rightarrow> int \<Rightarrow> int \<Rightarrow> int \<Rightarrow> (nat \<Rightarrow> error option) \<Rightarrow> error option \<times> event list"
where
  "Retry ctx attempts initial mx fn =
     (if attempts \<le> 1 then (fn 0, [Call 0])
      else retry_loop ctx attempts mx fn 0 initial)"

text \<open>
  For stating the behaviour: the number of attempts made from attempt \<open>i\<close> with at most
  \<open>n\<close> in total (up to the first success), what one iteration contributes to the trace,
  and the trace of \<open>m\<close> attempts.
\<close>

definition attempts_made :: "(nat \<Rightarrow> error option) \<Rightarrow> nat \<Rightarrow> nat \<Rightarrow> nat" where
  "attempts_made fn i n =
     (case find (\<lambda>j. fn j = None) [i..<n] of Some j \<Rightarrow> Suc j | None \<Rightarrow> n)"

definition loop_segment :: "int \<Rightarrow> int \<Rightarrow> nat \<Rightarrow> nat \<Rightarrow> event list" where
  "loop_segment mx d i j =
     (if j > 0 then [Sleep ((next_delay mx ^^ (j - i)) d)] else []) @ [Call j]"

definition schedule :: "int \<Rightarrow> int \<Rightarrow> nat \<Rightarrow> event list" where
  "schedule initial mx m = concat (map (loop_segment mx initial 0) [0..<m])"

text \<open>
  The delays as the specification and the configuration (\<^verbatim>\<open>MaxBackoff // cap\<close>) word
  them: doubled after each failed attempt and capped at the maximum.
\<close>

definition claimed_delay :: "int \<Rightarrow> int \<Rightarrow> nat \<Rightarrow> int" where
  "claimed_delay initial mx j = ((\<lambda>d. min (2 * d) mx) ^^ j) initial"

definition claimed_schedule :: "int \<Rightarrow> int \<Rightarrow> nat \<Rightarrow> event list" where
  "claimed_schedule initial mx m =
     concat (map (\<lambda>j. (if j > 0 then [Sleep (claimed_delay initial mx j)] else []) @ [Call j]) [0..<m])"

text \<open>Concrete contexts and operations for the examples.\<close>

definition never_done :: "nat \<Rightarrow> bool" where
  "never_done i = False"

definition always_done :: "nat \<Rightarrow> bool" where
  "always_done i = True"

definition always_fails :: "nat \<Rightarrow> error option" where
  "always_fails i = Some (Failure ''unavailable'')"

definition always_succeeds :: "nat \<Rightarrow> error option" where
  "always_succeeds i = None"

definition fails_twice :: "nat \<Rightarrow> error option" where
  "fails_twice i = (if i < 2 then Some (Failure ''unavailable'') else None)"

definition done_at :: "nat \<Rightarrow> nat \<Rightarrow> bool" where
  "done_at c i = (i = c)"

subsection \<open>Rule engine\<close>

text \<open>
  \<^verbatim>\<open>model.Event\<close>. The values of \<^verbatim>\<open>Raw\<close> (\<^verbatim>\<open>map[string]any\<close>) are opaque; a \<^verbatim>\<open>nil\<close>
  map and an empty map are the same map here, so the \<^verbatim>\<open>make\<close> of a missing \<^verbatim>\<open>Labels\<close>
  map in \<^verbatim>\<open>Apply\<close> is the identity.
\<close>

typedecl raw_value

record Event =
  ID :: string
  Source :: string
  Title :: string
  Summary :: string
  URL :: string
  Published :: int
  Lang :: string
  Country :: string
  Raw :: "string \<rightharpoonup> raw_value"
  Labels :: "string \<rightharpoonup> string"

text \<open>The rule configuration of package \<^verbatim>\<open>config\<close>.\<close>

record KeywordRule =
  kw_When :: "string list"
  kw_Labels :: "string \<rightharpoonup> string"

record RegexRule =
  rx_Field :: string
  rx_Expr :: string
  rx_Labels :: "string \<rightharpoonup> string"

record MapRule =
  mp_Field :: string
  mp_Mapping :: "string \<rightharpoonup> string"
  mp_OutKey :: string

record PostProcessConfig =
  Keywords :: "KeywordRule list"
  Regex :: "RegexRule list"
  Maps :: "MapRule list"

text \<open>
  \<^verbatim>\<open>strings.ToLower\<close> and \<^verbatim>\<open>strings.TrimSpace\<close> belong to Go's library and work on
  Unicode text (case mapping of every letter, Unicode white space). The functions below
  take the two as the parameter \<open>S\<close>, so that what is proved of them holds of Go's
  functions whatever they do. \<^verbatim>\<open>strings.Contains\<close> is the search of a byte sequence in a
  byte sequence, and is modelled in full.
\<close>

record Strings =
  ToLower :: "string \<Rightarrow> string"
  TrimSpace :: "string \<Rightarrow> string"

fun HasPrefix :: "string \<Rightarrow> string \<Rightarrow> bool" where
  "HasPrefix s [] = True"
| "HasPrefix [] (c # w) = False"
| "HasPrefix (a # s) (c # w) = (a = c \<and> HasPrefix s w)"

fun Contains :: "string \<Rightarrow> string \<Rightarrow> bool" where
  "Contains [] w = (w = [])"
| "Contains (a # s) w = (HasPrefix (a # s) w \<or> Contains s w)"

text \<open>
  \<^verbatim>\<open>regexp.Compile\<close> and \<^verbatim>\<open>(*Regexp).MatchString\<close> belong to Go's library: the
  functions below take them as the parameters \<open>compile\<close> and \<open>MatchString\<close>, over any
  type \<open>'re\<close> of compiled patterns.
\<close>

record 're compiledRegex =
  cr_field :: string
  cr_re :: 're
  cr_labels :: "string \<rightharpoonup> string"

record 're Engine =
  kw :: "KeywordRule list"
  regs :: "'re compiledRegex list"
  maps :: "MapRule list"

fun New_regs ::
  "(string \<Rightarrow> error + 're) \<Rightarrow> RegexRule list \<Rightarrow> 're compiledRegex list \<Rightarrow> error + 're compiledRegex list"
where
  "New_regs compile [] acc = Inr acc"
| "New_regs compile (r # rs) acc =
     (case compile (rx_Expr r) of
        Inl err \<Rightarrow> Inl err
      | Inr re \<Rightarrow>
          New_regs compile rs
            (acc @ [\<lparr>cr_field = rx_Field r, cr_re = re, cr_labels = rx_Labels r\<rparr>]))"

definition New :: "(string \<Rightarrow> error + 're) \<Rightarrow> PostProcessConfig \<Rightarrow> error + 're Engine" where
  "New compile cfg =
     (case New_regs compile (Regex cfg) [] of
        Inl err \<Rightarrow> Inl err
      | Inr rs \<Rightarrow> Inr \<lparr>kw = Keywords cfg, regs = rs, maps = Maps cfg\<rparr>)"

text \<open>
  \<^verbatim>\<open>Apply\<close>, the function that the orchestrator calls. Its three preparation loops
  build \<open>rrules\<close>, \<open>krules\<close> and \<open>mrules\<close>; a regex rule whose pattern does not compile
  is skipped (\<^verbatim>\<open>continue\<close>). The loop over the events works on a copy of each
  event that shares the label map of the original; the model returns the new events,
  and the orchestrator drops the old slice.
\<close>

record 're ritem =
  ri_field :: string
  ri_re :: 're
  ri_labels :: "string \<rightharpoonup> string"

record kitem =
  ki_words :: "string list"
  ki_labels :: "string \<rightharpoonup> string"

record mitem =
  mi_field :: string
  mi_outKey :: string
  mi_mapping :: "string \<rightharpoonup> string"

fun regex_rules :: "Strings \<Rightarrow> (string \<Rightarrow> error + 're) \<Rightarrow> RegexRule list \<Rightarrow> 're ritem list" where
  "regex_rules S compile [] = []"
| "regex_rules S compile (rr # rs) =
     (if TrimSpace S (rx_Field rr) = [] \<or> TrimSpace S (rx_Expr rr) = [] then regex_rules S compile rs
      else case compile (rx_Expr rr) of
             Inl err \<Rightarrow> regex_rules S compile rs
           | Inr re \<Rightarrow>
               \<lparr>ri_field = rx_Field rr, ri_re = re, ri_labels = rx_Labels rr\<rparr>
                 # regex_rules S compile rs)"

fun normalize_words :: "Strings \<Rightarrow> string list \<Rightarrow> string list" where
  "normalize_words S [] = []"
| "normalize_words S (w # ws) =
     (let s = TrimSpace S w
      in if s \<noteq> [] then ToLower S s # normalize_words S ws else normalize_words S ws)"

fun keyword_rules :: "Strings \<Rightarrow> KeywordRule list \<Rightarrow> kitem list" where
  "keyword_rules S [] = []"
| "keyword_rules S (kr # krs) =
     (if kw_When kr = [] then keyword_rules S krs
      else let words = normalize_words S (kw_When kr)
           in if words = [] then keyword_rules S krs
              else \<lparr>ki_words = words, ki_labels = kw_Labels kr\<rparr> # keyword_rules S krs)"

fun map_rules :: "Strings \<Rightarrow> MapRule list \<Rightarrow> mitem list" where
  "map_rules S [] = []"
| "map_rules S (mr # mrs) =
     (if TrimSpace S (mp_Field mr) = [] \<or> mp_Mapping mr = Map.empty then map_rules S mrs
      else let out = (if mp_OutKey mr = [] then mp_Field mr else mp_OutKey mr)
           in \<lparr>mi_field = mp_Field mr, mi_outKey = out, mi_mapping = mp_Mapping mr\<rparr>
                # map_rules S mrs)"

definition getField :: "Strings \<Rightarrow> Event \<Rightarrow> string \<Rightarrow> string" where
  "getField S e name =
     (let n = ToLower S name
      in if n = ''title'' then Title e
         else if n = ''summary'' then Summary e
         else if n = ''url'' then URL e
         else if n = ''lang'' \<or> n = ''language'' then Lang e
         else if n = ''country'' then Country e
         else (case Labels e name of Some v \<Rightarrow> v | None \<Rightarrow> []))"

fun kw_matched :: "string list \<Rightarrow> string \<Rightarrow> string \<Rightarrow> bool" where
  "kw_matched [] titleLC sumLC = True"
| "kw_matched (w # ws) titleLC sumLC =
     (if \<not> Contains titleLC w \<and> \<not> Contains sumLC w then False
      else kw_matched ws titleLC sumLC)"

fun apply_keywords :: "kitem list \<Rightarrow> string \<Rightarrow> string \<Rightarrow> Event \<Rightarrow> Event" where
  "apply_keywords [] titleLC sumLC ev = ev"
| "apply_keywords (kr # krs) titleLC sumLC ev =
     apply_keywords krs titleLC sumLC
       (if kw_matched (ki_words kr) titleLC sumLC
        then ev\<lparr>Labels := Labels ev ++ ki_labels kr\<rparr> else ev)"

fun apply_regex :: "Strings \<Rightarrow> ('re \<Rightarrow> string \<Rightarrow> bool) \<Rightarrow> 're ritem list \<Rightarrow> Event \<Rightarrow> Event" where
  "apply_regex S MatchString [] ev = ev"
| "apply_regex S MatchString (rr # rrs) ev =
     (let val = getField S ev (ri_field rr)
      in if val = [] then apply_regex S MatchString rrs ev
         else if MatchString (ri_re rr) val
              then apply_regex S MatchString rrs (ev\<lparr>Labels := Labels ev ++ ri_labels rr\<rparr>)
              else apply_regex S MatchString rrs ev)"

fun apply_maps :: "Strings \<Rightarrow> mitem list \<Rightarrow> Event \<Rightarrow> Event" where
  "apply_maps S [] ev = ev"
| "apply_maps S (mr # mrs) ev =
     (let val = getField S ev (mi_field mr)
      in if val = [] then apply_maps S mrs ev
         else case mi_mapping mr val of
                Some mapped \<Rightarrow> apply_maps S mrs (ev\<lparr>Labels := (Labels ev)(mi_outKey mr \<mapsto> mapped)\<rparr>)
              | None \<Rightarrow> apply_maps S mrs ev)"

definition apply_event ::
  "Strings \<Rightarrow> ('re \<Rightarrow> string \<Rightarrow> bool) \<Rightarrow> kitem list \<Rightarrow> 're ritem list \<Rightarrow> mitem list \<Rightarrow> Event \<Rightarrow> Event"
where
  "apply_event S MatchString krules rrules mrules ev =
     (let titleLC = ToLower S (Title ev);
          sumLC = ToLower S (Summary ev);
          ev1 = apply_keywords krules titleLC sumLC ev;
          ev2 = apply_regex S MatchString rrules ev1
      in apply_maps S mrules ev2)"

definition Apply ::
  "Strings \<Rightarrow> (string \<Rightarrow> error + 're) \<Rightarrow> ('re \<Rightarrow> string \<Rightarrow> bool) \<Rightarrow> Event list \<Rightarrow> PostProcessConfig \<Rightarrow> Event list"
where
  "Apply S compile MatchString events cfg =
     (if events = [] then events
      else let rrules = regex_rules S compile (Regex cfg);
               krules = keyword_rules S (Keywords cfg);
               mrules = map_rules S (Maps cfg)
           in map (apply_event S MatchString krules rrules mrules) events)"

text \<open>Whether \<open>Apply\<close> merges the labels of keyword rule \<open>kr\<close> into event \<open>ev\<close>.\<close>

definition keyword_rule_matches :: "Strings \<Rightarrow> KeywordRule \<Rightarrow> Event \<Rightarrow> bool" where
  "keyword_rule_matches S kr ev =
     (case keyword_rules S [kr] of
        [] \<Rightarrow> False
      | k # _ \<Rightarrow> kw_matched (ki_words k) (ToLower S (Title ev)) (ToLower S (Summary ev)))"

definition merge_if_matches :: "Strings \<Rightarrow> Event \<Rightarrow> Event \<Rightarrow> KeywordRule \<Rightarrow> Event" where
  "merge_if_matches S ev e kr =
     (if keyword_rule_matches S kr ev then e\<lparr>Labels := Labels e ++ kw_Labels kr\<rparr> else e)"

text \<open>The match as the specification words it.\<close>

definition claimed_keyword_match :: "Strings \<Rightarrow> KeywordRule \<Rightarrow> Event \<Rightarrow> bool" where
  "claimed_keyword_match S kr ev =
     list_all (\<lambda>w. Contains (ToLower S (Title ev @ Summary ev)) (ToLower S w)) (kw_When kr)"

text \<open>
  Concrete values for the examples. The strings of the examples are ASCII, and on ASCII
  text \<^verbatim>\<open>strings.ToLower\<close> adds 32 to the bytes \<^verbatim>\<open>'A'\<close> to \<^verbatim>\<open>'Z'\<close> and
  \<^verbatim>\<open>strings.TrimSpace\<close> drops the leading and trailing bytes among tab, line feed,
  vertical tab, form feed, carriage return and space: \<open>ascii_strings\<close> is the two
  functions on such text.
\<close>

definition to_lower_byte :: "char \<Rightarrow> char" where
  "to_lower_byte c =
     (if 65 \<le> (of_char c :: nat) \<and> (of_char c :: nat) \<le> 90
      then (case c of Char b0 b1 b2 b3 b4 b5 b6 b7 \<Rightarrow> Char b0 b1 b2 b3 b4 True b6 b7)
      else c)"

definition is_space :: "char \<Rightarrow> bool" where
  "is_space c \<longleftrightarrow> (of_char c :: nat) \<in> {9, 10, 11, 12, 13, 32}"

definition ascii_strings :: Strings where
  "ascii_strings =
     \<lparr>ToLower = map to_lower_byte,
      TrimSpace = (\<lambda>s. rev (dropWhile is_space (rev (dropWhile is_space s))))\<rparr>"

text \<open>An event, and a toy pattern library that rejects the pattern \<^verbatim>\<open>(\<close> and matches
  a pattern as a literal substring.\<close>

definition blank_event :: Event where
  "blank_event = \<lparr>ID = [], Source = [], Title = [], Summary = [], URL = [], Published = 0,
     Lang = [], Country = [], Raw = Map.empty, Labels = Map.empty\<rparr>"

definition toy_compile :: "string \<Rightarrow> error + string" where
  "toy_compile expr = (if expr = ''('' then Inl (BadPattern ''missing closing )'') else Inr expr)"

definition toy_match :: "string \<Rightarrow> string \<Rightarrow> bool" where
  "toy_match re s = Contains s re"

definition malformed_cfg :: PostProcessConfig where
  "malformed_cfg =
     \<lparr>Keywords = [],
      Regex = [\<lparr>rx_Field = ''title'', rx_Expr = ''('', rx_Labels = [''kind'' \<mapsto> ''paren'']\<rparr>],
      Maps = []\<rparr>"

subsection \<open>Metrics counters\<close>

text \<open>
  Package \<^verbatim>\<open>metrics\<close>: \<^verbatim>\<open>counters.m\<close> maps a counter name to its vector, and a vector
  maps a label key to its value. The values are \<^verbatim>\<open>float64\<close> in the source; the
  orchestrator only ever adds \<^verbatim>\<open>float64(len(evs))\<close>, and the sums of such integers are
  exact below \<open>2 ^ 53\<close>, so the model counts in integers. A label set
  (\<^verbatim>\<open>map[string]string\<close>) is given by the list of its entries.
\<close>

definition keyFromLabels :: "(string \<times> string) list \<Rightarrow> string" where
  "keyFromLabels labels =
     (if labels = [] then []
      else let ks = sort (map fst labels)
           in concat (map (\<lambda>(i, k).
                (if i > 0 then '','' else []) @ k @ ''='' @
                (case map_of labels k of Some v \<Rightarrow> v | None \<Rightarrow> []))
              (enumerate 0 ks)))"

type_synonym counters = "string \<rightharpoonup> (string \<rightharpoonup> int)"

definition IncCounter :: "counters \<Rightarrow> string \<Rightarrow> (string \<times> string) list \<Rightarrow> int \<Rightarrow> counters" where
  "IncCounter cs name labels v =
     (let cv = (case cs name of Some cv \<Rightarrow> cv | None \<Rightarrow> Map.empty);
          lk = keyFromLabels labels
      in cs(name \<mapsto> cv(lk \<mapsto> (case cv lk of Some x \<Rightarrow> x | None \<Rightarrow> 0) + v)))"

definition counter_value :: "counters \<Rightarrow> string \<Rightarrow> (string \<times> string) list \<Rightarrow> int" where
  "counter_value cs name labels =
     (case cs name of
        None \<Rightarrow> 0
      | Some cv \<Rightarrow> (case cv (keyFromLabels labels) of Some x \<Rightarrow> x | None \<Rightarrow> 0))"

subsection \<open>Orchestrator: one cycle\<close>

text \<open>
  The collaborators of one cycle. A sink is its name and the result of its \<^verbatim>\<open>Push\<close>
  for a batch; a source is its name and what its \<^verbatim>\<open>Fetch\<close> returns in this cycle.
\<close>

record Sink =
  sk_name :: string
  sk_push :: "Event list \<Rightarrow> error option"

record SourceRun =
  src_name :: string
  src_fetch :: "Event list \<times> error option"

text \<open>
  The lines that \<^verbatim>\<open>runOnce\<close> logs for a source. The cycle summary and the optional
  metrics snapshot at the end of a cycle only print, and are left out.
\<close>

datatype log_line =
    LogFetched string nat
  | LogFetchError string error
  | LogDedup string nat nat
  | LogNoNew string
  | LogApplying string
  | LogPushError string string error
  | LogPushed string nat nat

text \<open>
  What \<^verbatim>\<open>runOnce\<close> closes over: the \<^verbatim>\<open>verbose\<close> flag, the clock (\<open>env_clock j\<close> is the
  \<open>j\<close>-th reading of \<^verbatim>\<open>time.Now()\<close> by the dedup store), the string and pattern
  libraries, the rule configuration \<^verbatim>\<open>cfg.Post\<close> and the sinks.
\<close>

record 're Env =
  env_verbose :: bool
  env_clock :: "nat \<Rightarrow> int"
  env_strings :: Strings
  env_compile :: "string \<Rightarrow> error + 're"
  env_match :: "'re \<Rightarrow> string \<Rightarrow> bool"
  env_post :: PostProcessConfig
  env_sinks :: "Sink list"

text \<open>
  The state that a cycle changes: the dedup store \<^verbatim>\<open>d\<close> (\<open>None\<close> is \<^verbatim>\<open>nil\<close>: dedup
  disabled), the number of clock readings taken, the counters of package \<^verbatim>\<open>metrics\<close>,
  the local \<^verbatim>\<open>total\<close> and the log.
\<close>

record RunState =
  rs_dedup :: "Dedup option"
  rs_tick :: nat
  rs_counters :: counters
  rs_total :: nat
  rs_log :: "log_line list"

definition dedup_key :: "Event \<Rightarrow> string" where
  "dedup_key e = Source e @ ''::'' @ ID e"

text \<open>
  The dedup loop of \<^verbatim>\<open>runOnce\<close>: \<^verbatim>\<open>Seen\<close>, and for an event that is not seen,
  \<^verbatim>\<open>append\<close> and \<^verbatim>\<open>Mark\<close>. Each of the two calls takes the next clock reading.
\<close>

fun dedup_filter :: "(nat \<Rightarrow> int) \<Rightarrow> nat \<Rightarrow> Dedup \<Rightarrow> Event list \<Rightarrow> nat \<times> Dedup \<times> Event list" where
  "dedup_filter clk t d [] = (t, d, [])"
| "dedup_filter clk t d (e # es) =
     (let k = dedup_key e;
          (d1, seen) = Seen d (clk t) k
      in if seen then dedup_filter clk (t + 1) d1 es
         else let d2 = Mark d1 (clk (t + 1)) k;
                  (t', d', out) = dedup_filter clk (t + 2) d2 es
              in (t', d', e # out))"



definition filter_batch :: "'re Env \<Rightarrow> RunState \<Rightarrow> string \<Rightarrow> Event list \<Rightarrow> RunState \<times> Event list" where
  "filter_batch env st name evs =
     (case rs_dedup st of
        None \<Rightarrow> (st, evs)
      | Some d \<Rightarrow>
          let (t', d', out) = dedup_filter (env_clock env) (rs_tick st) d evs;
              st1 = st\<lparr>rs_dedup := Some d', rs_tick := t'\<rparr>;
              st2 = (if env_verbose env
                     then st1\<lparr>rs_log := rs_log st1 @ [LogDedup name (length evs) (length out)]\<rparr>
                     else st1)
          in (st2, out))"

text \<open>
  The fan-out. The pushes run concurrently and every one of them completes before the
  error channel is read (\<^verbatim>\<open>wg.Wait()\<close>), so what is read is one error for each sink
  whose \<^verbatim>\<open>Push\<close> failed; the order of the lines depends on the scheduler, and the model
  lists them in the order of the sinks.
\<close>

definition push_errors :: "Sink list \<Rightarrow> string \<Rightarrow> Event list \<Rightarrow> log_line list" where
  "push_errors sinks name evs =
     concat (map (\<lambda>sk. case sk_push sk evs of
                          Some err \<Rightarrow> [LogPushError name (sk_name sk) err]
                        | None \<Rightarrow> []) sinks)"

text \<open>Enrichment, fan-out and bookkeeping for a batch that is not empty.\<close>

definition deliver :: "'re Env \<Rightarrow> RunState \<Rightarrow> string \<Rightarrow> Event list \<Rightarrow> RunState" where
  "deliver env st name evs0 =
     (let st1 = (if env_verbose env then st\<lparr>rs_log := rs_log st @ [LogApplying name]\<rparr> else st);
          evs = Apply (env_strings env) (env_compile env) (env_match env) evs0 (env_post env);
          errs = push_errors (env_sinks env) name evs
      in if errs \<noteq> [] then st1\<lparr>rs_log := rs_log st1 @ errs\<rparr>
         else st1\<lparr>rs_total := rs_total st1 + length evs,
                  rs_counters := IncCounter (rs_counters st1) ''events_pushed_total''
                                   [(''source'', name)] (int (length evs)),
                  rs_log := rs_log st1 @ [LogPushed name (length evs) (length (env_sinks env))]\<rparr>)"

text \<open>The body of the loop over the sources.\<close>

definition source_step :: "'re Env \<Rightarrow> RunState \<Rightarrow> SourceRun \<Rightarrow> RunState" where
  "source_step env st src =
     (let (evs, err) = src_fetch src;
          st0 = st\<lparr>rs_log := rs_log st @ [LogFetched (src_name src) (length evs)]\<rparr>
      in case err of
           Some e \<Rightarrow> st0\<lparr>rs_log := rs_log st0 @ [LogFetchError (src_name src) e]\<rparr>
         | None \<Rightarrow>
             let (st1, evs1) = filter_batch env st0 (src_name src) evs
             in if evs1 = [] then st1\<lparr>rs_log := rs_log st1 @ [LogNoNew (src_name src)]\<rparr>
                else deliver env st1 (src_name src) evs1)"




text \<open>
  For stating the properties: the batch that \<open>source_step\<close> hands to the sinks (empty
  when it pushes nothing), and the push failures among the log lines.
\<close>

definition pushed_batch :: "'re Env \<Rightarrow> RunState \<Rightarrow> SourceRun \<Rightarrow> Event list" where
  "pushed_batch env st src =
     (case src_fetch src of
        (evs, Some e) \<Rightarrow> []
      | (evs, None) \<Rightarrow>
          Apply (env_strings env) (env_compile env) (env_match env)
            (snd (filter_batch env st (src_name src) evs)) (env_post env))"

fun is_push_error :: "log_line \<Rightarrow> bool" where
  "is_push_error (LogPushError name sink err) = True"
| "is_push_error l = False"

text \<open>Concrete collaborators for the examples.\<close>

definition tick_clock :: "nat \<Rightarrow> int" where
  "tick_clock j = int j"

definition failing_push :: "Event list \<Rightarrow> error option" where
  "failing_push evs = Some (Failure ''503'')"

definition accepting_push :: "Event list \<Rightarrow> error option" where
  "accepting_push evs = None"

definition event_of :: "string \<Rightarrow> string \<Rightarrow> Event" where
  "event_of src i = blank_event\<lparr>ID := i, Source := src\<rparr>"

definition example_env :: "Sink list \<Rightarrow> string Env" where
  "example_env sinks =
     \<lparr>env_verbose = False, env_clock = tick_clock,
      env_strings = ascii_strings, env_compile = toy_compile,
      env_match = toy_match, env_post = \<lparr>Keywords = [], Regex = [], Maps = []\<rparr>,
      env_sinks = sinks\<rparr>"

definition start_state :: "Dedup \<Rightarrow> RunState" where
  "start_state d =
     \<lparr>rs_dedup = Some d, rs_tick = 0, rs_counters = Map.empty, rs_total = 0, rs_log = []\<rparr>"

definition accepting_sink :: Sink where
  "accepting_sink = \<lparr>sk_name = ''loki'', sk_push = accepting_push\<rparr>"

definition failing_sink :: Sink where
  "failing_sink = \<lparr>sk_name = ''victoria'', sk_push = failing_push\<rparr>"

definition gta_source :: "Event list \<Rightarrow> SourceRun" where
  "gta_source evs = \<lparr>src_name = ''gta'', src_fetch = (evs, None)\<rparr>"


section \<open>Properties of the dedup store\<close>

subsection \<open>The representation invariant\<close>

lemma by_key_Nil [simp]: "by_key [] = Map.empty"
  by (simp add: by_key_def)

lemma by_key_Cons [simp]: "by_key (e # l) = (by_key l)(key e \<mapsto> e)"
  by (simp add: by_key_def)

lemma by_key_None_iff: "by_key l k = None \<longleftrightarrow> k \<notin> key ` set l"
  by (induction l) auto

lemma by_key_SomeD: "by_key l k = Some en \<Longrightarrow> en \<in> set l \<and> key en = k"
  by (induction l) (auto split: if_splits)

lemma by_key_Some_iff:
  "distinct (map key l) \<Longrightarrow> by_key l k = Some en \<longleftrightarrow> en \<in> set l \<and> key en = k"
proof (induction l)
  case Nil
  then show ?case by simp
next
  case (Cons a l)
  then show ?case
    using by_key_SomeD [of l k en] by (auto simp: image_iff)
qed

lemma distinct_key_remove1: "distinct (map key l) \<Longrightarrow> distinct (map key (remove1 en l))"
proof (induction l)
  case Nil
  then show ?case by simp
next
  case (Cons a l)
  have "set (remove1 en l) \<subseteq> set l" by (rule set_remove1_subset)
  with Cons show ?case by (auto simp: image_iff)
qed

lemma by_key_remove1:
  "distinct (map key l) \<Longrightarrow> en \<in> set l \<Longrightarrow> by_key (remove1 en l) = (by_key l)(key en := None)"
proof (induction l)
  case Nil
  then show ?case by simp
next
  case (Cons a l)
  show ?case
  proof (cases "a = en")
    case True
    with Cons.prems have "key en \<notin> key ` set l" by auto
    then have "by_key l (key en) = None" by (simp add: by_key_None_iff)
    with True show ?thesis by (auto simp: fun_eq_iff)
  next
    case False
    with Cons.prems have m: "en \<in> set l" and d: "distinct (map key l)" and ne: "key a \<noteq> key en"
      by auto
    from Cons.IH [OF d m] False ne show ?thesis by (auto simp: fun_eq_iff)
  qed
qed

lemma distinct_key_butlast: "distinct (map key l) \<Longrightarrow> distinct (map key (butlast l))"
  by (simp add: distinct_butlast map_butlast)

lemma by_key_butlast:
  "distinct (map key l) \<Longrightarrow> l \<noteq> [] \<Longrightarrow> by_key (butlast l) = (by_key l)(key (last l) := None)"
proof -
  assume d: "distinct (map key l)" and ne: "l \<noteq> []"
  have "remove1 (last l) l = butlast l"
    using d ne by (metis distinct_map remove1_append append_butlast_last_id distinct_append
        remove1.simps(2) disjoint_iff list.set_intros(1) append_Nil2)
  then show ?thesis using by_key_remove1 [OF d, of "last l"] ne by simp
qed


lemma NewDedup_inv: "dedup_inv (NewDedup maxKeys ttl0)"
  by (simp add: dedup_inv_def dedup_wf_def NewDedup_def Let_def Hour_def)

lemma NewDedup_cap: "cap (NewDedup maxKeys ttl0) = (if maxKeys \<le> 0 then 10000 else maxKeys)"
  by (simp add: NewDedup_def Let_def)

lemma NewDedup_ttl: "ttl (NewDedup maxKeys ttl0) = (if ttl0 \<le> 0 then 24 * Hour else ttl0)"
  by (simp add: NewDedup_def Let_def)

lemma Seen_cap_ttl: "cap (fst (Seen d now k)) = cap d \<and> ttl (fst (Seen d now k)) = ttl d"
  by (simp add: Seen_def split: option.splits)

lemma Seen_wf: "dedup_wf d \<Longrightarrow> dedup_wf (fst (Seen d now k))"
proof -
  assume wf: "dedup_wf d"
  show ?thesis
  proof (cases "items d k")
    case None
    with wf show ?thesis by (simp add: Seen_def)
  next
    case (Some en)
    from wf have dist: "distinct (map key (ll d))" and it: "items d = by_key (ll d)"
      by (simp_all add: dedup_wf_def)
    from Some it dist have mem: "en \<in> set (ll d)" and ke: "key en = k"
      by (simp_all add: by_key_Some_iff)
    have r: "by_key (remove1 en (ll d)) = (by_key (ll d))(k := None)"
      using by_key_remove1 [OF dist mem] ke by simp
    have dr: "distinct (map key (remove1 en (ll d)))"
      by (rule distinct_key_remove1 [OF dist])
    have nk: "k \<notin> key ` set (remove1 en (ll d))"
      using r by_key_None_iff [of "remove1 en (ll d)" k] by simp
    have front: "by_key (en # remove1 en (ll d)) = by_key (ll d)"
      using r ke Some it by (auto simp: fun_eq_iff)
    show ?thesis
    proof (cases "now < exp en")
      case True
      with Some wf dr nk ke front show ?thesis
        by (simp add: Seen_def dedup_wf_def)
    next
      case False
      with Some wf dr r show ?thesis
        by (simp add: Seen_def dedup_wf_def)
    qed
  qed
qed

lemma Seen_length: "dedup_wf d \<Longrightarrow> length (ll (fst (Seen d now k))) \<le> length (ll d)"
proof (cases "items d k")
  case None
  then show ?thesis by (simp add: Seen_def)
next
  case (Some en)
  assume wf: "dedup_wf d"
  with Some have mem: "en \<in> set (ll d)"
    by (simp add: dedup_wf_def by_key_Some_iff)
  then have "length (remove1 en (ll d)) = length (ll d) - 1" by (simp add: length_remove1)
  moreover from mem have "length (ll d) > 0" by (cases "ll d") auto
  ultimately show ?thesis using Some by (simp add: Seen_def)
qed

lemma Seen_inv: "dedup_inv d \<Longrightarrow> dedup_inv (fst (Seen d now k))"
  using Seen_wf [of d now k] Seen_length [of d now k] Seen_cap_ttl [of d now k]
  by (simp add: dedup_inv_def)

lemma evict_over_cap_ll: "ll (evict_over_cap d) = take (nat (cap d)) (ll d)"
proof (induction d rule: evict_over_cap.induct)
  case (1 d)
  show ?case
  proof (cases "int (length (ll d)) > cap d \<and> ll d \<noteq> []")
    case True
    let ?d' = "d\<lparr>ll := butlast (ll d), items := (items d)(key (last (ll d)) := None)\<rparr>"
    from True have ih: "ll (evict_over_cap ?d') = take (nat (cap ?d')) (ll ?d')"
      using "1.IH" by simp
    from True have "nat (cap d) \<le> length (ll d) - 1" by auto
    then have "take (nat (cap d)) (butlast (ll d)) = take (nat (cap d)) (ll d)"
      by (simp add: butlast_conv_take min_def)
    with ih True show ?thesis
      by (subst evict_over_cap.simps) (simp add: Let_def)
  next
    case False
    then show ?thesis
      by (subst evict_over_cap.simps) auto
  qed
qed

lemma evict_over_cap_cap_ttl:
  "cap (evict_over_cap d) = cap d \<and> ttl (evict_over_cap d) = ttl d"
proof (induction d rule: evict_over_cap.induct)
  case (1 d)
  show ?case
  proof (cases "int (length (ll d)) > cap d \<and> ll d \<noteq> []")
    case True
    with "1.IH" show ?thesis
      by (subst (1 2) evict_over_cap.simps) (simp add: Let_def)
  next
    case False
    then show ?thesis
      by (subst (1 2) evict_over_cap.simps) auto
  qed
qed

lemma wf_butlast:
  assumes "dedup_wf d" and "ll d \<noteq> []"
  shows "dedup_wf (d\<lparr>ll := butlast (ll d), items := (items d)(key (last (ll d)) := None)\<rparr>)"
  using assms by (simp add: dedup_wf_def distinct_key_butlast by_key_butlast)

lemma evict_over_cap_wf: "dedup_wf d \<Longrightarrow> dedup_wf (evict_over_cap d)"
proof (induction d rule: evict_over_cap.induct)
  case (1 d)
  show ?case
  proof (cases "int (length (ll d)) > cap d \<and> ll d \<noteq> []")
    case True
    with "1.IH" wf_butlast [OF "1.prems"] show ?thesis
      by (subst evict_over_cap.simps) (simp add: Let_def)
  next
    case False
    with "1.prems" show ?thesis
      by (subst evict_over_cap.simps) auto
  qed
qed

lemma sweep_expired_ll:
  "ll (sweep_expired d now) = rev (dropWhile (\<lambda>e. \<not> now < exp e) (rev (ll d)))"
proof (induction d now rule: sweep_expired.induct)
  case (1 d now)
  show ?case
  proof (cases "ll d = []")
    case True
    then show ?thesis by (subst sweep_expired.simps) simp
  next
    case False
    then have split: "ll d = butlast (ll d) @ [last (ll d)]" by simp
    show ?thesis
    proof (cases "now < exp (last (ll d))")
      case True
      have "rev (dropWhile (\<lambda>e. \<not> now < exp e) (rev (ll d))) = ll d"
        by (subst (1 2) split) (simp add: True del: append_butlast_last_id)
      with False True show ?thesis by (subst sweep_expired.simps) (simp add: Let_def)
    next
      case exp: False
      let ?d' = "d\<lparr>ll := butlast (ll d), items := (items d)(key (last (ll d)) := None)\<rparr>"
      have ih: "ll (sweep_expired ?d' now) = rev (dropWhile (\<lambda>e. \<not> now < exp e) (rev (ll ?d')))"
        using "1.IH" False exp by simp
      have "rev (dropWhile (\<lambda>e. \<not> now < exp e) (rev (ll d)))
            = rev (dropWhile (\<lambda>e. \<not> now < exp e) (rev (butlast (ll d))))"
        by (subst split) (simp add: exp del: append_butlast_last_id)
      with ih False exp show ?thesis by (subst sweep_expired.simps) (simp add: Let_def)
    qed
  qed
qed

lemma sweep_expired_cap_ttl:
  "cap (sweep_expired d now) = cap d \<and> ttl (sweep_expired d now) = ttl d"
proof (induction d now rule: sweep_expired.induct)
  case (1 d now)
  show ?case
  proof (cases "ll d \<noteq> [] \<and> \<not> now < exp (last (ll d))")
    case True
    with "1.IH" show ?thesis
      by (subst (1 2) sweep_expired.simps) (simp add: Let_def)
  next
    case False
    then show ?thesis
      by (subst (1 2) sweep_expired.simps) (auto simp: Let_def)
  qed
qed

lemma sweep_expired_wf: "dedup_wf d \<Longrightarrow> dedup_wf (sweep_expired d now)"
proof (induction d now rule: sweep_expired.induct)
  case (1 d now)
  show ?case
  proof (cases "ll d \<noteq> [] \<and> \<not> now < exp (last (ll d))")
    case True
    with "1.IH" wf_butlast [OF "1.prems"] show ?thesis
      by (subst sweep_expired.simps) (simp add: Let_def)
  next
    case False
    with "1.prems" show ?thesis
      by (subst sweep_expired.simps) (auto simp: Let_def)
  qed
qed

lemma sweep_expired_length: "length (ll (sweep_expired d now)) \<le> length (ll d)"
  using length_dropWhile_le [of "\<lambda>e. \<not> now < exp e" "rev (ll d)"]
  by (simp add: sweep_expired_ll)


lemma Mark_cap_ttl: "cap (Mark d now k) = cap d \<and> ttl (Mark d now k) = ttl d"
  by (simp add: Mark_def Let_def sweep_expired_cap_ttl evict_over_cap_cap_ttl split: option.splits)

lemma Mark_refresh_ll:
  "items d k = Some en \<Longrightarrow> ll (Mark d now k) = en\<lparr>exp := now + ttl d\<rparr> # remove1 en (ll d)"
  by (simp add: Mark_def Let_def)

lemma Mark_fresh_ll:
  "items d k = None \<Longrightarrow>
   ll (Mark d now k) =
     rev (dropWhile (\<lambda>e. \<not> now < exp e)
       (rev (take (nat (cap d)) (\<lparr>key = k, exp = now + ttl d\<rparr> # ll d))))"
  by (simp add: Mark_def Let_def sweep_expired_ll evict_over_cap_ll evict_over_cap_cap_ttl)

lemma Mark_wf: "dedup_wf d \<Longrightarrow> dedup_wf (Mark d now k)"
proof -
  assume wf: "dedup_wf d"
  from wf have dist: "distinct (map key (ll d))" and it: "items d = by_key (ll d)"
    by (simp_all add: dedup_wf_def)
  show ?thesis
  proof (cases "items d k")
    case None
    let ?el = "\<lparr>key = k, exp = now + ttl d\<rparr>"
    let ?d1 = "d\<lparr>ll := ?el # ll d, items := (items d)(k \<mapsto> ?el)\<rparr>"
    from None it have "k \<notin> key ` set (ll d)" by (simp add: by_key_None_iff)
    with wf have "dedup_wf ?d1" by (simp add: dedup_wf_def)
    then have "dedup_wf (sweep_expired (evict_over_cap ?d1) now)"
      by (intro sweep_expired_wf evict_over_cap_wf)
    with None show ?thesis by (simp add: Mark_def Let_def)
  next
    case (Some en)
    from Some it dist have mem: "en \<in> set (ll d)" and ke: "key en = k"
      by (simp_all add: by_key_Some_iff)
    have r: "by_key (remove1 en (ll d)) = (by_key (ll d))(k := None)"
      using by_key_remove1 [OF dist mem] ke by simp
    have dr: "distinct (map key (remove1 en (ll d)))"
      by (rule distinct_key_remove1 [OF dist])
    have nk: "k \<notin> key ` set (remove1 en (ll d))"
      using r by_key_None_iff [of "remove1 en (ll d)" k] by simp
    have front: "by_key (en\<lparr>exp := now + ttl d\<rparr> # remove1 en (ll d))
                 = (by_key (ll d))(k \<mapsto> en\<lparr>exp := now + ttl d\<rparr>)"
      using r ke by (auto simp: fun_eq_iff)
    from Some wf dr nk ke front it show ?thesis
      by (simp add: Mark_def Let_def dedup_wf_def)
  qed
qed

lemma Mark_length_cap: "dedup_wf d \<Longrightarrow> int (length (ll d)) \<le> cap d \<Longrightarrow>
  int (length (ll (Mark d now k))) \<le> cap d"
proof (cases "items d k")
  case None
  have "length (rev (dropWhile (\<lambda>e. \<not> now < exp e)
       (rev (take (nat (cap d)) (\<lparr>key = k, exp = now + ttl d\<rparr> # ll d))))) \<le>
       length (take (nat (cap d)) (\<lparr>key = k, exp = now + ttl d\<rparr> # ll d))"
    using length_dropWhile_le [of "\<lambda>e. \<not> now < exp e"
        "rev (take (nat (cap d)) (\<lparr>key = k, exp = now + ttl d\<rparr> # ll d))"]
    by simp
  moreover assume "dedup_wf d"
  then have "0 < cap d" by (simp add: dedup_wf_def)
  ultimately show ?thesis using None
    by (simp only: Mark_fresh_ll) (simp add: min_def split: if_splits)
next
  case (Some en)
  assume wf: "dedup_wf d" and le: "int (length (ll d)) \<le> cap d"
  with Some have mem: "en \<in> set (ll d)"
    by (simp add: dedup_wf_def by_key_Some_iff)
  then have "length (remove1 en (ll d)) = length (ll d) - 1" by (simp add: length_remove1)
  moreover from mem have "length (ll d) > 0" by (cases "ll d") auto
  ultimately show ?thesis using Some le by (simp add: Mark_refresh_ll)
qed

lemma Mark_inv: "dedup_inv d \<Longrightarrow> dedup_inv (Mark d now k)"
  using Mark_wf [of d now k] Mark_length_cap [of d now k] Mark_cap_ttl [of d now k]
  by (simp add: dedup_inv_def)

lemma step_inv: "dedup_inv d \<Longrightarrow> dedup_inv (step d o1)"
  by (cases o1) (simp_all add: Seen_inv Mark_inv)

lemma step_cap_ttl: "cap (step d o1) = cap d \<and> ttl (step d o1) = ttl d"
  by (cases o1) (simp_all add: Seen_cap_ttl Mark_cap_ttl)

lemma run_ops_inv: "dedup_inv d \<Longrightarrow> dedup_inv (run_ops d ops)"
  unfolding run_ops_def by (induction ops arbitrary: d) (simp_all add: step_inv)

lemma run_ops_cap_ttl: "cap (run_ops d ops) = cap d \<and> ttl (run_ops d ops) = ttl d"
  unfolding run_ops_def by (induction ops arbitrary: d) (simp_all add: step_cap_ttl)

lemma in_set_dropWhile: "x \<in> set xs \<Longrightarrow> \<not> P x \<Longrightarrow> x \<in> set (dropWhile P xs)"
  by (induction xs) auto

lemma Mark_items_key:
  assumes "dedup_inv d"
  shows "items (Mark d now k) k = Some \<lparr>key = k, exp = now + ttl d\<rparr>"
proof -
  let ?el = "\<lparr>key = k, exp = now + ttl d\<rparr>"
  from assms have wf: "dedup_wf d" by (simp add: dedup_inv_def)
  then have wf': "dedup_wf (Mark d now k)" by (rule Mark_wf)
  have "?el \<in> set (ll (Mark d now k))"
  proof (cases "items d k")
    case None
    from wf have "0 < cap d" and "0 < ttl d" by (simp_all add: dedup_wf_def)
    then have "?el \<in> set (take (nat (cap d)) (?el # ll d))" and "\<not> \<not> now < exp ?el"
      by (simp_all add: take_Cons')
    then have "?el \<in> set (dropWhile (\<lambda>e. \<not> now < exp e) (rev (take (nat (cap d)) (?el # ll d))))"
      by (intro in_set_dropWhile) simp_all
    with None show ?thesis by (simp only: Mark_fresh_ll set_rev)
  next
    case (Some en)
    with wf have "key en = k" by (simp add: dedup_wf_def by_key_Some_iff)
    then have "en\<lparr>exp := now + ttl d\<rparr> = ?el" by simp
    with Some show ?thesis by (simp add: Mark_refresh_ll)
  qed
  with wf' show ?thesis by (simp add: dedup_wf_def by_key_Some_iff)
qed



subsection \<open>Entries that survive later calls\<close>

lemma sweep_expired_keeps:
  assumes wf: "dedup_wf d" and it: "items d k = Some en" and live: "now < exp en"
  shows "items (sweep_expired d now) k = Some en"
proof -
  from wf it have mem: "en \<in> set (ll d)" and ke: "key en = k"
    by (simp_all add: dedup_wf_def by_key_Some_iff)
  from mem live have "en \<in> set (dropWhile (\<lambda>e. \<not> now < exp e) (rev (ll d)))"
    by (intro in_set_dropWhile) simp_all
  then have "en \<in> set (ll (sweep_expired d now))" by (simp add: sweep_expired_ll)
  moreover have "dedup_wf (sweep_expired d now)" by (rule sweep_expired_wf [OF wf])
  ultimately show ?thesis using ke by (simp add: dedup_wf_def by_key_Some_iff)
qed

lemma evict_over_cap_id: "int (length (ll d)) \<le> cap d \<Longrightarrow> evict_over_cap d = d"
  by (subst evict_over_cap.simps) simp

lemma Seen_keeps:
  assumes it: "items d k = Some en" and live: "now < exp en"
  shows "items (fst (Seen d now k')) k = Some en"
proof (cases "k' = k")
  case True
  with it live show ?thesis by (simp add: Seen_def)
next
  case False
  with it show ?thesis by (simp add: Seen_def split: option.splits)
qed

lemma Mark_keeps:
  assumes inv: "dedup_inv d" and it: "items d k = Some en" and live: "now < exp en"
    and other: "k' \<noteq> k" and room: "items d k' = None \<longrightarrow> int (length (ll d)) < cap d"
  shows "items (Mark d now k') k = Some en"
proof (cases "items d k'")
  case (Some en')
  with it other show ?thesis by (simp add: Mark_def Let_def)
next
  case None
  let ?el = "\<lparr>key = k', exp = now + ttl d\<rparr>"
  let ?d1 = "d\<lparr>ll := ?el # ll d, items := (items d)(k' \<mapsto> ?el)\<rparr>"
  from inv have wf: "dedup_wf d" by (simp add: dedup_inv_def)
  from None wf have "k' \<notin> key ` set (ll d)" by (simp add: dedup_wf_def by_key_None_iff)
  with wf have wf1: "dedup_wf ?d1" by (simp add: dedup_wf_def)
  from None room have "evict_over_cap ?d1 = ?d1" by (intro evict_over_cap_id) simp
  moreover have "items (sweep_expired ?d1 now) k = Some en"
    using it other by (intro sweep_expired_keeps [OF wf1 _ live]) simp
  ultimately show ?thesis using None by (simp add: Mark_def Let_def)
qed


text \<open>
  An entry that is live at time \<open>T\<close> survives any calls made up to \<open>T\<close> that do not
  mark its own key, as long as none of them evicts for capacity.
\<close>

lemma run_ops_keeps:
  assumes "dedup_inv d" and "items d k = Some en" and "T < exp en"
    and "\<forall>o1 \<in> set ops. op_time o1 \<le> T \<and> \<not> marks_key k o1"
    and "no_capacity_eviction d ops"
  shows "items (run_ops d ops) k = Some en"
  using assms
proof (induction ops arbitrary: d)
  case Nil
  then show ?case by (simp add: run_ops_def)
next
  case (Cons o1 ops)
  from Cons.prems have inv: "dedup_inv d" by simp
  have inv': "dedup_inv (step d o1)" by (rule step_inv [OF inv])
  from Cons.prems have tm: "op_time o1 \<le> T" and nm: "\<not> marks_key k o1" by simp_all
  from tm Cons.prems(3) have live: "op_time o1 < exp en" by simp
  have keep: "items (step d o1) k = Some en"
  proof (cases o1)
    case (OpSeen k' now)
    with Cons.prems(2) live show ?thesis by (simp add: Seen_keeps)
  next
    case (OpMark k' now)
    with nm have ne: "k' \<noteq> k" by simp
    from OpMark Cons.prems(5) have "items d k' = None \<longrightarrow> int (length (ll d)) < cap d" by simp
    with OpMark live ne show ?thesis
      using Mark_keeps [OF inv Cons.prems(2), of now k'] by simp
  qed
  have rest: "no_capacity_eviction (step d o1) ops"
    using Cons.prems(5) by (cases o1) simp_all
  have "items (run_ops (step d o1) ops) k = Some en"
    using Cons.prems(3,4) by (intro Cons.IH [OF inv' keep _ _ rest]) simp_all
  then show ?case by (simp add: run_ops_def)
qed

lemma Seen_live: "items d k = Some en \<Longrightarrow> t < exp en \<Longrightarrow> snd (Seen d t k)"
  by (simp add: Seen_def)

subsection \<open>The list is kept in order of the most recent touch\<close>

lemma remdups_snoc: "remdups (h @ [k]) = filter (\<lambda>x. x \<noteq> k) (remdups h) @ [k]"
  by (induction h) auto

lemma recency_snoc: "recency (h @ [k]) = k # filter (\<lambda>x. x \<noteq> k) (recency h)"
  by (simp add: recency_def remdups_snoc rev_filter)

lemma filter_take_distinct:
  "distinct xs \<Longrightarrow> filter (\<lambda>x. x \<in> set (take n xs)) xs = take n xs"
proof (induction xs arbitrary: n)
  case Nil
  then show ?case by simp
next
  case (Cons a xs)
  show ?case
  proof (cases n)
    case 0
    then show ?thesis by simp
  next
    case (Suc m)
    from Cons.prems have a: "a \<notin> set xs" and d: "distinct xs" by simp_all
    have "filter (\<lambda>x. x = a \<or> x \<in> set (take m xs)) xs = filter (\<lambda>x. x \<in> set (take m xs)) xs"
      using a by (intro filter_cong) auto
    with Cons.IH [OF d, of m] Suc show ?thesis by simp
  qed
qed

lemma map_key_remove1:
  "distinct (map key l) \<Longrightarrow> en \<in> set l \<Longrightarrow>
   map key (remove1 en l) = filter (\<lambda>x. x \<noteq> key en) (map key l)"
proof (induction l)
  case Nil
  then show ?case by simp
next
  case (Cons a l)
  show ?case
  proof (cases "a = en")
    case True
    with Cons.prems have "key en \<notin> set (map key l)" by auto
    then have "filter (\<lambda>x. x \<noteq> key en) (map key l) = map key l"
      by (intro filter_True) force
    with True show ?thesis by simp
  next
    case False
    with Cons.prems have "en \<in> set l" "distinct (map key l)" "key a \<noteq> key en" by auto
    with Cons.IH False show ?thesis by simp
  qed
qed

lemma order_move_front:
  assumes ord: "in_recency_order d h" and dist: "distinct (map key (ll d))"
    and mem: "en \<in> set (ll d)" and k': "key en' = key en"
  shows "in_recency_order (d\<lparr>ll := en' # remove1 en (ll d), items := m\<rparr>) (h @ [key en])"
proof -
  let ?K = "key ` set (ll d)"
  have keys: "map key (remove1 en (ll d)) = filter (\<lambda>x. x \<noteq> key en) (map key (ll d))"
    by (rule map_key_remove1 [OF dist mem])
  have sets: "insert (key en) (key ` set (remove1 en (ll d))) = ?K"
  proof -
    have "key ` set (remove1 en (ll d)) = set (map key (remove1 en (ll d)))" by simp
    also have "\<dots> = ?K - {key en}" by (simp only: keys) auto
    finally show ?thesis using mem by auto
  qed
  have "filter (\<lambda>k. k \<in> ?K) (filter (\<lambda>x. x \<noteq> key en) (recency h))
        = filter (\<lambda>x. x \<noteq> key en) (filter (\<lambda>k. k \<in> ?K) (recency h))"
    by (simp add: conj_commute)
  also have "\<dots> = filter (\<lambda>x. x \<noteq> key en) (map key (ll d))"
    using ord by (simp add: in_recency_order_def)
  finally show ?thesis
    using mem by (simp add: in_recency_order_def recency_snoc k' keys sets del: filter_filter)
qed

lemma order_remove:
  assumes ord: "in_recency_order d h" and dist: "distinct (map key (ll d))"
    and mem: "en \<in> set (ll d)"
  shows "in_recency_order (d\<lparr>ll := remove1 en (ll d), items := m\<rparr>) h"
proof -
  let ?K = "key ` set (ll d)"
  have keys: "map key (remove1 en (ll d)) = filter (\<lambda>x. x \<noteq> key en) (map key (ll d))"
    by (rule map_key_remove1 [OF dist mem])
  have sets: "key ` set (remove1 en (ll d)) = ?K - {key en}"
  proof -
    have "key ` set (remove1 en (ll d)) = set (map key (remove1 en (ll d)))" by simp
    also have "\<dots> = ?K - {key en}" by (simp only: keys) auto
    finally show ?thesis .
  qed
  have "filter (\<lambda>k. k \<in> ?K - {key en}) (recency h)
        = filter (\<lambda>x. x \<noteq> key en) (filter (\<lambda>k. k \<in> ?K) (recency h))"
    by (simp add: conj_commute)
  also have "\<dots> = filter (\<lambda>x. x \<noteq> key en) (map key (ll d))"
    using ord by (simp add: in_recency_order_def)
  finally show ?thesis
    by (simp add: in_recency_order_def keys sets del: filter_filter)
qed

lemma order_push_front:
  assumes ord: "in_recency_order d h" and fresh: "k \<notin> key ` set (ll d)" and ke: "key el = k"
  shows "in_recency_order (d\<lparr>ll := el # ll d, items := m\<rparr>) (h @ [k])"
proof -
  let ?K = "key ` set (ll d)"
  have "filter (\<lambda>x. x \<in> insert k ?K) (filter (\<lambda>x. x \<noteq> k) (recency h))
        = filter (\<lambda>x. x \<in> ?K) (recency h)"
    using fresh by (simp) (intro filter_cong, auto)
  then show ?thesis
    using ord ke by (simp add: in_recency_order_def recency_snoc del: filter_filter)
qed

lemma order_take:
  assumes ord: "in_recency_order d h" and dist: "distinct (map key (ll d))"
    and pre: "ll d' = take n (ll d)"
  shows "in_recency_order d' h"
proof -
  let ?ks = "map key (ll d)"
  have sub: "set (take n ?ks) \<subseteq> set ?ks" by (rule set_take_subset)
  have e: "filter (\<lambda>k. k \<in> set ?ks) (recency h) = ?ks"
    using ord [unfolded in_recency_order_def, symmetric] by (simp only: set_map)
  have "filter (\<lambda>k. k \<in> set (take n ?ks)) (filter (\<lambda>k. k \<in> set ?ks) (recency h))
        = filter (\<lambda>k. k \<in> set ?ks \<and> k \<in> set (take n ?ks)) (recency h)"
    by (rule filter_filter)
  also have "\<dots> = filter (\<lambda>k. k \<in> set (take n ?ks)) (recency h)"
    using sub by (intro filter_cong) auto
  finally have "filter (\<lambda>k. k \<in> set (take n ?ks)) (recency h)
        = filter (\<lambda>k. k \<in> set (take n ?ks)) (filter (\<lambda>k. k \<in> set ?ks) (recency h))"
    by simp
  also have "\<dots> = filter (\<lambda>k. k \<in> set (take n ?ks)) ?ks"
    by (simp only: e)
  also have "\<dots> = take n ?ks" by (rule filter_take_distinct [OF dist])
  finally have "take n ?ks = filter (\<lambda>k. k \<in> set (take n ?ks)) (recency h)" by simp
  then show ?thesis by (simp add: in_recency_order_def pre take_map)
qed


lemma order_cong: "ll d' = ll d \<Longrightarrow> in_recency_order d h \<Longrightarrow> in_recency_order d' h"
  by (simp add: in_recency_order_def)

lemma rev_dropWhile_rev_take:
  "rev (dropWhile P (rev l)) = take (length (dropWhile P (rev l))) l"
proof -
  have "l = rev (dropWhile P (rev l)) @ rev (takeWhile P (rev l))"
    by (metis rev_append rev_rev_ident takeWhile_dropWhile_id)
  then have "take (length (dropWhile P (rev l))) l
             = take (length (rev (dropWhile P (rev l))))
                 (rev (dropWhile P (rev l)) @ rev (takeWhile P (rev l)))"
    by simp
  then show ?thesis by (simp only: take_append length_rev) simp
qed

lemma Mark_fresh_take:
  assumes "items d k = None"
  shows "\<exists>m. ll (Mark d now k) = take m (\<lparr>key = k, exp = now + ttl d\<rparr> # ll d)"
proof -
  let ?l = "take (nat (cap d)) (\<lparr>key = k, exp = now + ttl d\<rparr> # ll d)"
  have "ll (Mark d now k) = take (length (dropWhile (\<lambda>e. \<not> now < exp e) (rev ?l))) ?l"
    using assms by (simp only: Mark_fresh_ll rev_dropWhile_rev_take [symmetric])
  then show ?thesis by (simp only: take_take) blast
qed

lemma Mark_fresh_front:
  assumes inv: "dedup_inv d" and fresh: "items d k = None"
  shows "\<exists>m. int m < cap d \<and> ll (Mark d now k) = \<lparr>key = k, exp = now + ttl d\<rparr> # take m (ll d)"
proof -
  let ?el = "\<lparr>key = k, exp = now + ttl d\<rparr>"
  from Mark_fresh_take [OF fresh] obtain m where m: "ll (Mark d now k) = take m (?el # ll d)"
    by blast
  from inv have wf: "dedup_wf (Mark d now k)" by (simp add: dedup_inv_def Mark_wf)
  from Mark_items_key [OF inv, of now k] wf have "?el \<in> set (ll (Mark d now k))"
    by (simp add: dedup_wf_def by_key_Some_iff)
  with m have "m \<noteq> 0" by (cases m) auto
  then obtain m' where m': "m = Suc m'" by (cases m) auto
  with m have l: "ll (Mark d now k) = ?el # take m' (ll d)" by simp
  show ?thesis
  proof (cases "m' \<le> length (ll d)")
    case True
    from Mark_inv [OF inv, of now k] have "int (length (ll (Mark d now k))) \<le> cap d"
      by (simp add: dedup_inv_def Mark_cap_ttl)
    with l True have "int m' < cap d" by (simp add: min_def split: if_splits)
    with l show ?thesis by blast
  next
    case False
    then have "take m' (ll d) = take (length (ll d)) (ll d)" by simp
    moreover from Mark_inv [OF inv, of now k] l False
    have "int (length (ll d)) < cap d" by (simp add: dedup_inv_def Mark_cap_ttl)
    ultimately show ?thesis using l by metis
  qed
qed

lemma step_order:
  assumes wf: "dedup_wf d" and ord: "in_recency_order d h"
  shows "in_recency_order (step d o1) (h @ touched d o1)"
proof -
  from wf have dist: "distinct (map key (ll d))" and it: "items d = by_key (ll d)"
    by (simp_all add: dedup_wf_def)
  show ?thesis
  proof (cases o1)
    case (OpSeen k now)
    show ?thesis
    proof (cases "items d k")
      case None
      with OpSeen ord show ?thesis by (simp add: Seen_def)
    next
      case (Some en)
      with it dist have mem: "en \<in> set (ll d)" and ke: "key en = k"
        by (simp_all add: by_key_Some_iff)
      show ?thesis
      proof (cases "now < exp en")
        case True
        have "in_recency_order (d\<lparr>ll := en # remove1 en (ll d), items := items d\<rparr>) (h @ [key en])"
          by (rule order_move_front [OF ord dist mem refl])
        with OpSeen Some True ke show ?thesis by (simp add: Seen_def)
      next
        case False
        have "in_recency_order (d\<lparr>ll := remove1 en (ll d), items := (items d)(k := None)\<rparr>) h"
          by (rule order_remove [OF ord dist mem])
        with OpSeen Some False show ?thesis by (simp add: Seen_def)
      qed
    qed
  next
    case (OpMark k now)
    show ?thesis
    proof (cases "items d k")
      case None
      let ?el = "\<lparr>key = k, exp = now + ttl d\<rparr>"
      let ?d1 = "d\<lparr>ll := ?el # ll d, items := (items d)(k \<mapsto> ?el)\<rparr>"
      from None it have fresh: "k \<notin> key ` set (ll d)" by (simp add: by_key_None_iff)
      have o1: "in_recency_order ?d1 (h @ [k])"
        by (rule order_push_front [OF ord fresh]) simp
      have d1: "distinct (map key (ll ?d1))" using dist fresh by simp
      from Mark_fresh_take [OF None, of now] obtain m
        where "ll (Mark d now k) = take m (ll ?d1)" by auto
      from order_take [OF o1 d1 this] OpMark show ?thesis by simp
    next
      case (Some en)
      with it dist have mem: "en \<in> set (ll d)" and ke: "key en = k"
        by (simp_all add: by_key_Some_iff)
      have "in_recency_order (d\<lparr>ll := en\<lparr>exp := now + ttl d\<rparr> # remove1 en (ll d),
               items := (items d)(k \<mapsto> en\<lparr>exp := now + ttl d\<rparr>)\<rparr>) (h @ [key en])"
        by (rule order_move_front [OF ord dist mem]) simp
      with OpMark Some ke show ?thesis by (simp add: Mark_def Let_def)
    qed
  qed
qed

lemma step_wf: "dedup_wf d \<Longrightarrow> dedup_wf (step d o1)"
  by (cases o1) (simp_all add: Seen_wf Mark_wf)

lemma run_ops_order:
  "dedup_wf d \<Longrightarrow> in_recency_order d h \<Longrightarrow>
   in_recency_order (run_ops d ops) (h @ touch_log d ops)"
proof (induction ops arbitrary: d h)
  case Nil
  then show ?case by (simp add: run_ops_def)
next
  case (Cons o1 ops)
  have "in_recency_order (run_ops (step d o1) ops) ((h @ touched d o1) @ touch_log (step d o1) ops)"
    by (intro Cons.IH step_wf step_order Cons.prems)
  then show ?case by (simp add: run_ops_def)
qed

lemma card_dom_by_key: "distinct (map key l) \<Longrightarrow> card (dom (by_key l)) = length l"
proof -
  assume d: "distinct (map key l)"
  have "k \<in> dom (by_key l) \<longleftrightarrow> k \<in> set (map key l)" for k
    using by_key_None_iff [of l k] by (auto simp: dom_def)
  then have "dom (by_key l) = set (map key l)" by blast
  with d show ?thesis by (simp only: distinct_card) simp
qed

subsection \<open>Queries\<close>

text \<open>
  Claim C4. In a store that satisfies its invariant, \<open>Seen\<close> returns true exactly when the
  list holds an entry for the key whose expiry is strictly after \<open>now\<close>; at
  \<open>now = exp\<close> the entry counts as expired. A found unexpired entry is moved to the
  front of the recency list and nothing else changes; a found expired entry is removed
  from the list and from the map; an absent key leaves the store as it is.
\<close>

theorem Seen_spec:
  assumes "dedup_inv d"
  shows "(snd (Seen d now k) \<longleftrightarrow> (\<exists>en \<in> set (ll d). key en = k \<and> now < exp en)) \<and>
         (\<forall>en \<in> set (ll d). key en = k \<and> now = exp en \<longrightarrow> \<not> snd (Seen d now k)) \<and>
         (\<forall>en \<in> set (ll d). key en = k \<and> now < exp en \<longrightarrow>
            ll (fst (Seen d now k)) = en # remove1 en (ll d) \<and>
            items (fst (Seen d now k)) = items d) \<and>
         (\<forall>en \<in> set (ll d). key en = k \<and> \<not> now < exp en \<longrightarrow>
            ll (fst (Seen d now k)) = remove1 en (ll d) \<and>
            k \<notin> key ` set (ll (fst (Seen d now k))) \<and>
            items (fst (Seen d now k)) = (items d)(k := None)) \<and>
         (k \<notin> key ` set (ll d) \<longrightarrow> Seen d now k = (d, False))"
proof -
  from assms have dist: "distinct (map key (ll d))" and it: "items d = by_key (ll d)"
    by (simp_all add: dedup_inv_def dedup_wf_def)
  have look: "items d k = Some en \<longleftrightarrow> en \<in> set (ll d) \<and> key en = k" for en
    using dist it by (simp add: by_key_Some_iff)
  have miss: "items d k = None \<longleftrightarrow> k \<notin> key ` set (ll d)"
    using it by (simp add: by_key_None_iff)
  have gone: "k \<notin> key ` set (remove1 en (ll d))" if "en \<in> set (ll d)" "key en = k" for en
  proof -
    have "by_key (remove1 en (ll d)) k = None"
      using by_key_remove1 [OF dist that(1)] that(2) by simp
    then show ?thesis by (simp add: by_key_None_iff)
  qed
  have c1: "snd (Seen d now k) \<longleftrightarrow> (\<exists>en \<in> set (ll d). key en = k \<and> now < exp en)"
  proof (cases "items d k")
    case None
    with miss show ?thesis by (auto simp: Seen_def)
  next
    case (Some en)
    from Some look have mem: "en \<in> set (ll d)" and ke: "key en = k" by simp_all
    have uniq: "e = en" if "e \<in> set (ll d)" "key e = k" for e
      using look [of e] that Some by simp
    have "(\<exists>e \<in> set (ll d). key e = k \<and> now < exp e) \<longleftrightarrow> now < exp en"
      using mem ke uniq by blast
    with Some show ?thesis by (simp add: Seen_def)
  qed
  have c2: "\<forall>en \<in> set (ll d). key en = k \<and> now = exp en \<longrightarrow> \<not> snd (Seen d now k)"
  proof (intro ballI impI)
    fix en assume m: "en \<in> set (ll d)" and h: "key en = k \<and> now = exp en"
    with look have "items d k = Some en" by simp
    with h show "\<not> snd (Seen d now k)" by (simp add: Seen_def)
  qed
  have c3: "\<forall>en \<in> set (ll d). key en = k \<and> now < exp en \<longrightarrow>
            ll (fst (Seen d now k)) = en # remove1 en (ll d) \<and>
            items (fst (Seen d now k)) = items d"
  proof (intro ballI impI)
    fix en assume m: "en \<in> set (ll d)" and h: "key en = k \<and> now < exp en"
    with look have "items d k = Some en" by simp
    with h show "ll (fst (Seen d now k)) = en # remove1 en (ll d) \<and>
            items (fst (Seen d now k)) = items d"
      by (simp add: Seen_def)
  qed
  have c4: "\<forall>en \<in> set (ll d). key en = k \<and> \<not> now < exp en \<longrightarrow>
            ll (fst (Seen d now k)) = remove1 en (ll d) \<and>
            k \<notin> key ` set (ll (fst (Seen d now k))) \<and>
            items (fst (Seen d now k)) = (items d)(k := None)"
  proof (intro ballI impI)
    fix en assume m: "en \<in> set (ll d)" and h: "key en = k \<and> \<not> now < exp en"
    with look have "items d k = Some en" by simp
    with h gone [OF m] show "ll (fst (Seen d now k)) = remove1 en (ll d) \<and>
            k \<notin> key ` set (ll (fst (Seen d now k))) \<and>
            items (fst (Seen d now k)) = (items d)(k := None)"
      by (simp add: Seen_def)
  qed
  have c5: "k \<notin> key ` set (ll d) \<longrightarrow> Seen d now k = (d, False)"
    using miss by (auto simp: Seen_def)
  from c1 c2 c3 c4 c5 show ?thesis by blast
qed

theorem Seen_spec_witness:
  "dedup_inv (Mark (NewDedup 2 10) 0 ''k'') \<and>
   ll (Mark (NewDedup 2 10) 0 ''k'') = [\<lparr>key = ''k'', exp = 10\<rparr>] \<and>
   snd (Seen (Mark (NewDedup 2 10) 0 ''k'') 9 ''k'') \<and>
   \<not> snd (Seen (Mark (NewDedup 2 10) 0 ''k'') 10 ''k'') \<and>
   ll (fst (Seen (Mark (NewDedup 2 10) 0 ''k'') 10 ''k'')) = []"
proof -
  have inv: "dedup_inv (Mark (NewDedup 2 10) 0 ''k'')"
    by (intro Mark_inv NewDedup_inv)
  have l: "ll (Mark (NewDedup 2 10) 0 ''k'') = [\<lparr>key = ''k'', exp = 10\<rparr>]"
    by (simp add: Mark_fresh_ll NewDedup_def)
  from Seen_spec [OF inv, of 9 "''k''"] Seen_spec [OF inv, of 10 "''k''"] inv l
  show ?thesis by simp
qed

subsection \<open>Capacity and eviction order\<close>

text \<open>
  Claim C5. \<open>NewDedup\<close> replaces a non-positive capacity by 10000 and a non-positive TTL
  by 24 hours. After every prefix of every sequence of \<open>Seen\<close> and \<open>Mark\<close> calls on a
  fresh store, the number of keys held is at most the capacity. The list holds the keys
  in order of their most recent touch, and a \<open>Mark\<close> of a new key keeps the new entry
  in front of a prefix of the old list shorter than the capacity: what is evicted is a
  suffix of the recency order, the least recently touched keys.
\<close>

theorem capacity_bound:
  "\<forall>n. let d0 = NewDedup maxKeys ttl0; d = run_ops d0 (take n ops) in
     cap d = (if maxKeys \<le> 0 then 10000 else maxKeys) \<and>
     ttl d = (if ttl0 \<le> 0 then 24 * Hour else ttl0) \<and>
     card (dom (items d)) = length (ll d) \<and>
     int (card (dom (items d))) \<le> cap d \<and>
     map key (ll d) = filter (\<lambda>k. k \<in> dom (items d)) (recency (touch_log d0 (take n ops))) \<and>
     (\<forall>now k. items d k = None \<longrightarrow>
        (\<exists>m. int m < cap d \<and>
             ll (Mark d now k) = \<lparr>key = k, exp = now + ttl d\<rparr> # take m (ll d)))"
proof
  fix n
  let ?init = "NewDedup maxKeys ttl0"
  let ?d = "run_ops ?init (take n ops)"
  have inv: "dedup_inv ?d" by (intro run_ops_inv NewDedup_inv)
  then have wf: "dedup_wf ?d" and le: "int (length (ll ?d)) \<le> cap ?d"
    by (simp_all add: dedup_inv_def)
  from wf have it: "items ?d = by_key (ll ?d)" and dist: "distinct (map key (ll ?d))"
    by (simp_all add: dedup_wf_def)
  have c1: "cap ?d = (if maxKeys \<le> 0 then 10000 else maxKeys)"
    by (simp add: run_ops_cap_ttl NewDedup_cap)
  have c2: "ttl ?d = (if ttl0 \<le> 0 then 24 * Hour else ttl0)"
    by (simp add: run_ops_cap_ttl NewDedup_ttl)
  have c3: "card (dom (items ?d)) = length (ll ?d)"
    using card_dom_by_key [OF dist] it by simp
  have c4: "int (card (dom (items ?d))) \<le> cap ?d"
    using c3 le by simp
  have wf0: "dedup_wf ?init" using NewDedup_inv [of maxKeys ttl0] by (simp add: dedup_inv_def)
  have "in_recency_order ?init []"
    by (simp add: in_recency_order_def NewDedup_def Let_def)
  from run_ops_order [OF wf0 this, of "take n ops"]
  have ord: "map key (ll ?d) = filter (\<lambda>k. k \<in> key ` set (ll ?d)) (recency (touch_log ?init (take n ops)))"
    by (simp add: in_recency_order_def)
  have "dom (items ?d) = key ` set (ll ?d)"
  proof -
    have "k \<in> dom (items ?d) \<longleftrightarrow> k \<in> key ` set (ll ?d)" for k
      using by_key_None_iff [of "ll ?d" k] it by (auto simp: dom_def)
    then show ?thesis by blast
  qed
  with ord have c5: "map key (ll ?d) =
      filter (\<lambda>k. k \<in> dom (items ?d)) (recency (touch_log ?init (take n ops)))"
    by simp
  have c6: "\<forall>now k. items ?d k = None \<longrightarrow>
        (\<exists>m. int m < cap ?d \<and>
             ll (Mark ?d now k) = \<lparr>key = k, exp = now + ttl ?d\<rparr> # take m (ll ?d))"
    using Mark_fresh_front [OF inv] by blast
  from c1 c2 c3 c4 c5 c6
  show "let d0 = NewDedup maxKeys ttl0; d = run_ops d0 (take n ops) in
     cap d = (if maxKeys \<le> 0 then 10000 else maxKeys) \<and>
     ttl d = (if ttl0 \<le> 0 then 24 * Hour else ttl0) \<and>
     card (dom (items d)) = length (ll d) \<and>
     int (card (dom (items d))) \<le> cap d \<and>
     map key (ll d) = filter (\<lambda>k. k \<in> dom (items d)) (recency (touch_log d0 (take n ops))) \<and>
     (\<forall>now k. items d k = None \<longrightarrow>
        (\<exists>m. int m < cap d \<and>
             ll (Mark d now k) = \<lparr>key = k, exp = now + ttl d\<rparr> # take m (ll d)))"
    unfolding Let_def by (intro conjI)
qed

lemma ex_ops_ll:
  "ll (run_ops (NewDedup 2 10) [OpMark ''a'' 0, OpMark ''b'' 1, OpSeen ''a'' 2]) =
     [\<lparr>key = ''a'', exp = 10\<rparr>, \<lparr>key = ''b'', exp = 11\<rparr>]"
  by (simp add: run_ops_def NewDedup_def Mark_def Seen_def Let_def
      evict_over_cap.simps sweep_expired.simps)

lemma ex_ops_items:
  "items (run_ops (NewDedup 2 10) [OpMark ''a'' 0, OpMark ''b'' 1, OpSeen ''a'' 2]) ''c'' = None"
  by (simp add: run_ops_def NewDedup_def Mark_def Seen_def Let_def
      evict_over_cap.simps sweep_expired.simps)

theorem capacity_bound_witness:
  "items (run_ops (NewDedup 2 10) [OpMark ''a'' 0, OpMark ''b'' 1, OpSeen ''a'' 2]) ''c'' = None \<and>
   ll (run_ops (NewDedup 2 10) [OpMark ''a'' 0, OpMark ''b'' 1, OpSeen ''a'' 2]) =
     [\<lparr>key = ''a'', exp = 10\<rparr>, \<lparr>key = ''b'', exp = 11\<rparr>] \<and>
   ll (Mark (run_ops (NewDedup 2 10) [OpMark ''a'' 0, OpMark ''b'' 1, OpSeen ''a'' 2]) 3 ''c'') =
     [\<lparr>key = ''c'', exp = 13\<rparr>, \<lparr>key = ''a'', exp = 10\<rparr>]"
proof -
  let ?ops = "[OpMark ''a'' 0, OpMark ''b'' 1, OpSeen ''a'' 2]"
  let ?d = "run_ops (NewDedup 2 10) ?ops"
  have tk: "take 3 ?ops = ?ops" by simp
  note inst = capacity_bound [of 2 10 ?ops, THEN spec, of 3, unfolded Let_def tk]
  from inst have cb: "(\<forall>now k. items ?d k = None \<longrightarrow>
        (\<exists>m. int m < cap ?d \<and> ll (Mark ?d now k) = \<lparr>key = k, exp = now + ttl ?d\<rparr> # take m (ll ?d)))"
    by blast
  from inst have c: "cap ?d = 2" and t: "ttl ?d = 10" by simp_all
  from cb have "items ?d ''c'' = None \<longrightarrow>
        (\<exists>m. int m < cap ?d \<and> ll (Mark ?d 3 ''c'') = \<lparr>key = ''c'', exp = 3 + ttl ?d\<rparr> # take m (ll ?d))"
    by blast
  with ex_ops_items c t obtain m where "int m < 2"
    and "ll (Mark ?d 3 ''c'') = \<lparr>key = ''c'', exp = 13\<rparr> # take m (ll ?d)"
    by auto
  moreover have "ll (Mark ?d 3 ''c'') = [\<lparr>key = ''c'', exp = 13\<rparr>, \<lparr>key = ''a'', exp = 10\<rparr>]"
    using ex_ops_items ex_ops_ll c t by (simp add: Mark_fresh_ll)
  ultimately show ?thesis using ex_ops_items ex_ops_ll by simp
qed

subsection \<open>Mark, then Seen\<close>

text \<open>
  Claim C6. Whatever calls \<open>pre\<close> came before (earlier marks of the same key among
  them), after \<open>Mark\<close> of \<open>k\<close> at \<open>now\<close> the key is seen at every time \<open>T\<close> strictly
  before \<open>now + ttl\<close>, also after further calls \<open>post\<close> made up to \<open>T\<close> that do not
  mark \<open>k\<close> again, provided none of them evicts for capacity. From \<open>now + ttl\<close> on the key is no longer seen. A \<open>Mark\<close> of a key that is
  present sets its expiry to \<open>now + ttl\<close> and moves it to the front.
\<close>

theorem Mark_then_Seen:
  assumes "dedup_inv d"
  shows
    "(\<forall>pre post T.
        (\<forall>o1 \<in> set post. op_time o1 \<le> T \<and> \<not> marks_key k o1) \<and>
        no_capacity_eviction (Mark (run_ops d pre) now k) post \<and>
        T < now + ttl d \<longrightarrow>
        snd (Seen (run_ops (Mark (run_ops d pre) now k) post) T k)) \<and>
     (\<forall>T. now + ttl d \<le> T \<longrightarrow> \<not> snd (Seen (Mark d now k) T k)) \<and>
     (\<forall>en. items d k = Some en \<longrightarrow>
        ll (Mark d now k) = \<lparr>key = k, exp = now + ttl d\<rparr> # remove1 en (ll d) \<and>
        items (Mark d now k) = (items d)(k \<mapsto> \<lparr>key = k, exp = now + ttl d\<rparr>))"
proof (intro conjI allI impI)
  fix pre post T
  assume h: "(\<forall>o1 \<in> set post. op_time o1 \<le> T \<and> \<not> marks_key k o1) \<and>
        no_capacity_eviction (Mark (run_ops d pre) now k) post \<and>
        T < now + ttl d"
  let ?dm = "run_ops d pre"
  let ?el = "\<lparr>key = k, exp = now + ttl d\<rparr>"
  have inv1: "dedup_inv ?dm" by (rule run_ops_inv [OF assms])
  have t1: "ttl ?dm = ttl d" and c1: "cap ?dm = cap d" by (simp_all add: run_ops_cap_ttl)
  have inv2: "dedup_inv (Mark ?dm now k)" by (rule Mark_inv [OF inv1])
  have it: "items (Mark ?dm now k) k = Some ?el"
    using Mark_items_key [OF inv1, of now k] t1 by simp
  have "items (run_ops (Mark ?dm now k) post) k = Some ?el"
    using h by (intro run_ops_keeps [OF inv2 it, where T = T]) simp_all
  then show "snd (Seen (run_ops (Mark ?dm now k) post) T k)"
    using h by (intro Seen_live [where en = ?el]) simp_all
next
  fix T assume "now + ttl d \<le> T"
  then show "\<not> snd (Seen (Mark d now k) T k)"
    using Mark_items_key [OF assms, of now k] by (simp add: Seen_def)
next
  fix en assume s: "items d k = Some en"
  with assms have "key en = k" by (simp add: dedup_inv_def dedup_wf_def by_key_Some_iff)
  then have e: "en\<lparr>exp := now + ttl d\<rparr> = \<lparr>key = k, exp = now + ttl d\<rparr>" by simp
  from s e show "ll (Mark d now k) = \<lparr>key = k, exp = now + ttl d\<rparr> # remove1 en (ll d)"
    by (simp add: Mark_refresh_ll)
  from s e show "items (Mark d now k) = (items d)(k \<mapsto> \<lparr>key = k, exp = now + ttl d\<rparr>)"
    by (simp add: Mark_def Let_def)
qed

theorem Mark_then_Seen_witness:
  "dedup_inv (NewDedup 2 10) \<and>
   snd (Seen (run_ops (Mark (run_ops (NewDedup 2 10) [OpMark ''k'' 0]) 5 ''k'') [OpMark ''j'' 6]) 14 ''k'') \<and>
   \<not> snd (Seen (Mark (NewDedup 2 10) 5 ''k'') 15 ''k'')"
proof -
  have inv: "dedup_inv (NewDedup 2 10)" by (rule NewDedup_inv)
  have l: "no_capacity_eviction (Mark (run_ops (NewDedup 2 10) [OpMark ''k'' 0]) 5 ''k'') [OpMark ''j'' 6]"
    by (simp add: run_ops_def NewDedup_def Mark_def Let_def evict_over_cap.simps sweep_expired.simps)
  have ct: "cap (NewDedup 2 10) = 2" "ttl (NewDedup 2 10) = 10"
    by (simp_all add: NewDedup_def)
  from Mark_then_Seen [OF inv, of "''k''" 5]
  have a: "(\<forall>o1 \<in> set [OpMark ''j'' 6]. op_time o1 \<le> 14 \<and> \<not> marks_key ''k'' o1) \<and>
        no_capacity_eviction (Mark (run_ops (NewDedup 2 10) [OpMark ''k'' 0]) 5 ''k'') [OpMark ''j'' 6] \<and>
        14 < 5 + ttl (NewDedup 2 10) \<longrightarrow>
        snd (Seen (run_ops (Mark (run_ops (NewDedup 2 10) [OpMark ''k'' 0]) 5 ''k'') [OpMark ''j'' 6]) 14 ''k'')"
    and b: "5 + ttl (NewDedup 2 10) \<le> 15 \<longrightarrow> \<not> snd (Seen (Mark (NewDedup 2 10) 5 ''k'') 15 ''k'')"
    by blast+
  from a l ct have "snd (Seen (run_ops (Mark (run_ops (NewDedup 2 10) [OpMark ''k'' 0]) 5 ''k'') [OpMark ''j'' 6]) 14 ''k'')"
    by simp
  moreover from b ct have "\<not> snd (Seen (Mark (NewDedup 2 10) 5 ''k'') 15 ''k'')" by simp
  ultimately show ?thesis using inv by simp
qed

section \<open>Properties of the backoff retry\<close>

lemma attempts_made_success: "i < n \<Longrightarrow> fn i = None \<Longrightarrow> attempts_made fn i n = Suc i"
  by (simp add: attempts_made_def upt_rec [of i n])

lemma attempts_made_failure:
  "i < n \<Longrightarrow> fn i \<noteq> None \<Longrightarrow> attempts_made fn i n = attempts_made fn (Suc i) n"
  by (auto simp: attempts_made_def upt_rec [of i n])

lemma attempts_made_done: "n \<le> i \<Longrightarrow> attempts_made fn i n = n"
  by (simp add: attempts_made_def)

lemma attempts_made_bounds: "i < n \<Longrightarrow> i < attempts_made fn i n \<and> attempts_made fn i n \<le> n"
proof (induction "n - i" arbitrary: i)
  case 0
  then show ?case by simp
next
  case (Suc k)
  show ?case
  proof (cases "fn i = None")
    case True
    with Suc.prems show ?thesis by (simp add: attempts_made_success)
  next
    case False
    show ?thesis
    proof (cases "Suc i < n")
      case True
      with Suc.hyps have "k = n - Suc i" by simp
      from Suc.hyps(1) [OF this True] False Suc.prems show ?thesis
        by (simp add: attempts_made_failure)
    next
      case last: False
      with Suc.prems False show ?thesis
        by (simp add: attempts_made_failure attempts_made_done)
    qed
  qed
qed

lemma attempts_made_last:
  "i < n \<Longrightarrow> fn (attempts_made fn i n - 1) = None \<or> attempts_made fn i n = n"
proof (induction "n - i" arbitrary: i)
  case 0
  then show ?case by simp
next
  case (Suc k)
  show ?case
  proof (cases "fn i = None")
    case True
    with Suc.prems show ?thesis by (simp add: attempts_made_success)
  next
    case False
    show ?thesis
    proof (cases "Suc i < n")
      case True
      with Suc.hyps have "k = n - Suc i" by simp
      from Suc.hyps(1) [OF this True] False Suc.prems show ?thesis
        by (simp add: attempts_made_failure)
    next
      case last: False
      with Suc.prems False show ?thesis
        by (simp add: attempts_made_failure attempts_made_done)
    qed
  qed
qed

lemma attempts_made_earlier_fail:
  "i \<le> j \<Longrightarrow> Suc j < attempts_made fn i n \<Longrightarrow> fn j \<noteq> None"
proof (induction "j - i" arbitrary: i)
  case 0
  then have ij: "i = j" by simp
  show ?case
  proof
    assume "fn j = None"
    moreover from 0 ij attempts_made_done [of n j fn] have "j < n"
      by (cases "j < n") auto
    ultimately have "attempts_made fn j n = Suc j" by (simp add: attempts_made_success)
    with 0 ij show False by simp
  qed
next
  case (Suc k)
  then have lt: "i < j" by simp
  have inn: "i < n"
  proof (rule ccontr)
    assume "\<not> i < n"
    then have "attempts_made fn i n = n" by (simp add: attempts_made_done)
    with Suc.prems \<open>\<not> i < n\<close> lt show False by simp
  qed
  show ?case
  proof (cases "fn i = None")
    case True
    with inn Suc.prems lt show ?thesis by (simp add: attempts_made_success)
  next
    case False
    with inn have "attempts_made fn i n = attempts_made fn (Suc i) n"
      by (simp add: attempts_made_failure)
    moreover from Suc.hyps(2) have "k = j - Suc i" by simp
    ultimately show ?thesis using Suc.prems lt Suc.hyps(1) [of "Suc i"] by simp
  qed
qed

lemma loop_segment_shift:
  "i < j \<Longrightarrow> loop_segment mx (next_delay mx d) (Suc i) j = loop_segment mx d i j"
proof -
  assume "i < j"
  then have "j - i = Suc (j - Suc i)" by simp
  then show ?thesis by (simp add: loop_segment_def funpow_swap1)
qed

lemma loop_segments_shift:
  "map (loop_segment mx (next_delay mx d) (Suc i)) [Suc i..<m] = map (loop_segment mx d i) [Suc i..<m]"
  by (rule map_cong) (simp_all add: loop_segment_shift)

text \<open>The loop from iteration \<open>i\<close> with delay \<open>d\<close>, when no wait is cancelled.\<close>

lemma retry_loop_runs:
  assumes "int i < attempts"
    and "\<forall>j. 0 < j \<and> i \<le> j \<and> j < attempts_made fn i (nat attempts) \<longrightarrow> \<not> done_first ctx j"
  shows "retry_loop ctx attempts mx fn i d =
           (fn (attempts_made fn i (nat attempts) - 1),
            concat (map (loop_segment mx d i) [i..<attempts_made fn i (nat attempts)]))"
  using assms
proof (induction "nat attempts - i" arbitrary: i d)
  case 0
  then show ?case by simp
next
  case (Suc k)
  let ?n = "nat attempts"
  from Suc.prems have inn: "i < ?n" by simp
  from attempts_made_bounds [OF inn, of fn] have mb: "i < attempts_made fn i ?n" by simp
  with Suc.prems have nc: "\<not> (0 < i \<and> done_first ctx i)" by auto
  have seg: "loop_segment mx d i i = (if 0 < i then [Sleep d] else []) @ [Call i]"
    by (simp add: loop_segment_def)
  show ?case
  proof (cases "fn i")
    case None
    with inn have m: "attempts_made fn i ?n = Suc i" by (simp add: attempts_made_success)
    from None nc Suc.prems(1) show ?thesis
      by (subst retry_loop.simps) (auto simp: m seg)
  next
    case (Some err)
    then have f: "fn i \<noteq> None" by simp
    with inn have m: "attempts_made fn i ?n = attempts_made fn (Suc i) ?n"
      by (simp add: attempts_made_failure)
    show ?thesis
    proof (cases "int i = attempts - 1")
      case True
      then have "?n \<le> Suc i" by simp
      then have m': "attempts_made fn i ?n = Suc i"
        using m inn by (simp add: attempts_made_done)
      from Some nc Suc.prems(1) True show ?thesis
        by (subst retry_loop.simps) (auto simp: m' seg)
    next
      case False
      with Suc.prems(1) have lt: "int (Suc i) < attempts" by simp
      from Suc.hyps(2) have k: "k = nat attempts - Suc i" by simp
      have nc': "\<forall>j. 0 < j \<and> Suc i \<le> j \<and> j < attempts_made fn (Suc i) ?n \<longrightarrow> \<not> done_first ctx j"
        using Suc.prems(2) m by auto
      have ih: "retry_loop ctx attempts mx fn (Suc i) (next_delay mx d) =
           (fn (attempts_made fn (Suc i) ?n - 1),
            concat (map (loop_segment mx (next_delay mx d) (Suc i)) [Suc i..<attempts_made fn (Suc i) ?n]))"
        by (rule Suc.hyps(1) [OF k lt nc'])
      have up: "[i..<attempts_made fn i ?n] = i # [Suc i..<attempts_made fn (Suc i) ?n]"
        using mb m by (simp add: upt_rec [of i])
      from Some nc Suc.prems(1) False show ?thesis
        by (subst retry_loop.simps)
           (auto simp: ih up m [symmetric] seg loop_segments_shift simp del: upt_Suc)
    qed
  qed
qed


text \<open>The loop from iteration \<open>i\<close>, when the wait before attempt \<open>c\<close> is the first cancelled one.\<close>

lemma retry_loop_cancelled:
  assumes "int c < attempts" and "0 < c" and "i \<le> c" and "done_first ctx c"
    and "\<forall>j. i \<le> j \<and> j < c \<longrightarrow> fn j \<noteq> None"
    and "\<forall>j. 0 < j \<and> i \<le> j \<and> j < c \<longrightarrow> \<not> done_first ctx j"
  shows "retry_loop ctx attempts mx fn i d =
           (Some (ctx_err ctx),
            concat (map (loop_segment mx d i) [i..<c]) @ [Abort ((next_delay mx ^^ (c - i)) d)])"
  using assms(3,5,6)
proof (induction "c - i" arbitrary: i d)
  case 0
  then have "i = c" by simp
  with assms(1,2,4) show ?case by (subst retry_loop.simps) simp
next
  case (Suc k)
  then have lt: "i < c" by simp
  with Suc.prems obtain err where f: "fn i = Some err" by auto
  from lt Suc.prems have nc: "\<not> (0 < i \<and> done_first ctx i)" by auto
  from lt assms(1) have a: "int i < attempts" and b: "int i \<noteq> attempts - 1" by simp_all
  have seg: "loop_segment mx d i i = (if 0 < i then [Sleep d] else []) @ [Call i]"
    by (simp add: loop_segment_def)
  from Suc.hyps(2) have k: "k = c - Suc i" by simp
  have ih: "retry_loop ctx attempts mx fn (Suc i) (next_delay mx d) =
           (Some (ctx_err ctx),
            concat (map (loop_segment mx (next_delay mx d) (Suc i)) [Suc i..<c])
              @ [Abort ((next_delay mx ^^ (c - Suc i)) (next_delay mx d))])"
    using lt Suc.prems by (intro Suc.hyps(1) [OF k]) auto
  have up: "[i..<c] = i # [Suc i..<c]" using lt by (simp add: upt_rec [of i])
  from lt have pw: "(next_delay mx ^^ (c - Suc i)) (next_delay mx d) = (next_delay mx ^^ (c - i)) d"
    by (simp add: funpow_swap1 [symmetric] Suc_diff_Suc del: funpow.simps)
       (metis Suc_diff_Suc funpow_swap1 funpow.simps(2) o_apply)
  from f nc a b show ?case
    by (subst retry_loop.simps)
       (auto simp: ih up seg pw loop_segments_shift simp del: upt_Suc)
qed

lemma retry_loop_first:
  "0 < attempts \<Longrightarrow> \<exists>rest. snd (retry_loop ctx attempts mx fn 0 d) = Call 0 # rest"
  by (subst retry_loop.simps) (auto split: option.splits prod.splits)

lemma retry_loop_ctx_cong:
  assumes "\<forall>j. 0 < j \<longrightarrow> done_first ctx' j = done_first ctx j" and "ctx_err ctx' = ctx_err ctx"
  shows "retry_loop ctx' attempts mx fn i d = retry_loop ctx attempts mx fn i d"
proof (induction "nat (attempts - int i)" arbitrary: i d)
  case 0
  then have "\<not> int i < attempts" by simp
  then show ?case by (subst (1 2) retry_loop.simps) simp
next
  case (Suc k)
  then have k: "k = nat (attempts - int (Suc i))" by simp
  have ih: "retry_loop ctx' attempts mx fn (i + 1) (next_delay mx d)
            = retry_loop ctx attempts mx fn (i + 1) (next_delay mx d)"
    using Suc.hyps(1) [OF k] by simp
  from assms have dn: "(0 < i \<and> done_first ctx' i) = (0 < i \<and> done_first ctx i)" by auto
  show ?case
    by (subst (1 2) retry_loop.simps) (simp only: dn ih assms(2))
qed

lemma wrap64_id: "- (2 ^ 63) \<le> x \<Longrightarrow> x < 2 ^ 63 \<Longrightarrow> wrap64 x = x"
  by (simp add: wrap64_def)

lemma Call_in_segments:
  "Call j \<in> set (concat (map (loop_segment mx d i) [i..<c])) \<Longrightarrow> j < c"
  by (auto simp: loop_segment_def split: if_splits)

text \<open>
  Claim C7. The code misses the cap when the initial delay is above it: the update
  \<^verbatim>\<open>if d < max { d *= 2; if d > max { d = max } }\<close> clamps a doubled delay but leaves a
  delay that starts above \<^verbatim>\<open>max\<close> as it is. With an initial delay of 10 and a cap of 5
  and an operation that always fails, \<open>Retry\<close> sleeps 10 before each retry, while the
  delay "doubled after each failed attempt, capped at the maximum" is 5.
\<close>

theorem Retry_exceeds_cap:
  "Retry \<lparr>done_first = never_done, ctx_err = Canceled\<rparr> 3 10 5 always_fails
     = (Some (Failure ''unavailable''), [Call 0, Sleep 10, Call 1, Sleep 10, Call 2]) \<and>
   claimed_schedule 10 5 3 = [Call 0, Sleep 5, Call 1, Sleep 5, Call 2] \<and>
   snd (Retry \<lparr>done_first = never_done, ctx_err = Canceled\<rparr> 3 10 5 always_fails)
     \<noteq> claimed_schedule 10 5 3"
  by (simp add: Retry_def retry_loop.simps next_delay_def never_done_def always_fails_def
      claimed_schedule_def claimed_delay_def upt_rec numeral_eq_Suc)

text \<open>
  The rest of the claim holds of the code. With \<open>attempts \<le> 1\<close> the operation is called
  exactly once and its result returned. Otherwise, when none of the waits that occur is
  cancelled, \<open>Retry\<close> makes \<open>m\<close> calls, where \<open>m \<le> attempts\<close> is the first successful
  attempt or \<open>attempts\<close> if there is none: it returns the result of the last call made
  (success at once on the first success, the last failure if all fail), and sleeps the
  current delay before each retry and never after the last call. After each failed
  attempt a delay below the cap becomes \<open>min (2 * d) mx\<close> (as long as \<open>2 * d\<close> fits an
  \<^verbatim>\<open>int64\<close>); only a delay at or above the cap stays as it is, which is the defect
  above.
\<close>

theorem Retry_schedule:
  "(attempts \<le> 1 \<longrightarrow> Retry ctx attempts initial mx fn = (fn 0, [Call 0])) \<and>
   (1 < attempts \<and>
    (\<forall>j. 0 < j \<and> j < attempts_made fn 0 (nat attempts) \<longrightarrow> \<not> done_first ctx j) \<longrightarrow>
      (let m = attempts_made fn 0 (nat attempts) in
         Retry ctx attempts initial mx fn = (fn (m - 1), schedule initial mx m) \<and>
         0 < m \<and> int m \<le> attempts \<and>
         (fn (m - 1) = None \<or> int m = attempts) \<and>
         (\<forall>j. Suc j < m \<longrightarrow> fn j \<noteq> None))) \<and>
   (\<forall>d. d < mx \<and> - (2 ^ 62) \<le> d \<and> d < 2 ^ 62 \<longrightarrow> next_delay mx d = min (2 * d) mx) \<and>
   (\<forall>d. mx \<le> d \<longrightarrow> next_delay mx d = d)"
proof (intro conjI impI allI)
  assume "attempts \<le> 1"
  then show "Retry ctx attempts initial mx fn = (fn 0, [Call 0])" by (simp add: Retry_def)
next
  assume h: "1 < attempts \<and>
    (\<forall>j. 0 < j \<and> j < attempts_made fn 0 (nat attempts) \<longrightarrow> \<not> done_first ctx j)"
  let ?m = "attempts_made fn 0 (nat attempts)"
  from h have pos: "int 0 < attempts" and n: "0 < nat attempts" by simp_all
  have r: "Retry ctx attempts initial mx fn = (fn (?m - 1), schedule initial mx ?m)"
    using h retry_loop_runs [OF pos, of fn ctx mx initial]
    by (simp add: Retry_def schedule_def)
  from attempts_made_bounds [OF n, of fn] h have b: "0 < ?m" "int ?m \<le> attempts" by auto
  from attempts_made_last [OF n, of fn] b have l: "fn (?m - 1) = None \<or> int ?m = attempts"
    by auto
  have e: "\<forall>j. Suc j < ?m \<longrightarrow> fn j \<noteq> None"
    using attempts_made_earlier_fail [of 0 _ fn "nat attempts"] by simp
  from r b l e show "let m = attempts_made fn 0 (nat attempts) in
         Retry ctx attempts initial mx fn = (fn (m - 1), schedule initial mx m) \<and>
         0 < m \<and> int m \<le> attempts \<and>
         (fn (m - 1) = None \<or> int m = attempts) \<and>
         (\<forall>j. Suc j < m \<longrightarrow> fn j \<noteq> None)"
    unfolding Let_def by (intro conjI)
next
  fix d :: int assume h: "d < mx \<and> - (2 ^ 62) \<le> d \<and> d < 2 ^ 62"
  then have "wrap64 (d * 2) = d * 2" by (intro wrap64_id) simp_all
  with h show "next_delay mx d = min (2 * d) mx"
    by (simp add: next_delay_def Let_def min_def)
next
  fix d :: int assume "mx \<le> d"
  then show "next_delay mx d = d" by (simp add: next_delay_def)
qed

lemma next_delay_ex: "next_delay 5 1 = 2" "next_delay 5 2 = 4" "next_delay 5 4 = 5"
  by (simp_all add: next_delay_def wrap64_def Let_def)

lemma fails_twice_made: "attempts_made fails_twice 0 (nat 5) = 3"
  by (simp add: attempts_made_def fails_twice_def upt_rec numeral_eq_Suc)

theorem Retry_schedule_witness:
  "Retry \<lparr>done_first = never_done, ctx_err = Canceled\<rparr> 5 1 5 fails_twice
     = (None, [Call 0, Sleep 2, Call 1, Sleep 4, Call 2]) \<and>
   Retry \<lparr>done_first = never_done, ctx_err = Canceled\<rparr> 1 1 5 always_fails
     = (Some (Failure ''unavailable''), [Call 0]) \<and>
   Retry \<lparr>done_first = always_done, ctx_err = Canceled\<rparr> 5 1 5 always_succeeds
     = (None, [Call 0]) \<and>
   next_delay 5 4 = min (2 * 4) 5 \<and> next_delay 5 10 = 10"
proof -
  let ?ctx = "\<lparr>done_first = never_done, ctx_err = Canceled\<rparr>"
  note a = Retry_schedule [of 5 ?ctx 1 5 fails_twice]
  note b = Retry_schedule [of 1 ?ctx 1 5 always_fails]
  have s: "schedule 1 5 3 = [Call 0, Sleep 2, Call 1, Sleep 4, Call 2]"
    by (simp add: schedule_def loop_segment_def next_delay_ex upt_rec numeral_eq_Suc)
  have pre: "1 < (5::int) \<and>
    (\<forall>j. 0 < j \<and> j < attempts_made fails_twice 0 (nat 5) \<longrightarrow> \<not> done_first ?ctx j)"
    by (simp add: never_done_def)
  from a pre have "let m = attempts_made fails_twice 0 (nat 5) in
         Retry ?ctx 5 1 5 fails_twice = (fails_twice (m - 1), schedule 1 5 m) \<and>
         0 < m \<and> int m \<le> 5 \<and>
         (fails_twice (m - 1) = None \<or> int m = 5) \<and>
         (\<forall>j. Suc j < m \<longrightarrow> fails_twice j \<noteq> None)"
    by blast
  then have "Retry ?ctx 5 1 5 fails_twice = (fails_twice (3 - 1), schedule 1 5 3)"
    unfolding Let_def fails_twice_made by (rule conjunct1)
  then have "Retry ?ctx 5 1 5 fails_twice = (None, [Call 0, Sleep 2, Call 1, Sleep 4, Call 2])"
    by (simp add: s fails_twice_def)
  moreover from b have "Retry ?ctx 1 1 5 always_fails = (Some (Failure ''unavailable''), [Call 0])"
    by (simp add: always_fails_def)
  moreover have "Retry \<lparr>done_first = always_done, ctx_err = Canceled\<rparr> 5 1 5 always_succeeds
      = (None, [Call 0])"
  proof -
    let ?done = "\<lparr>done_first = always_done, ctx_err = Canceled\<rparr>"
    have one: "attempts_made always_succeeds 0 (nat 5) = 1"
      by (simp add: attempts_made_def always_succeeds_def upt_rec numeral_eq_Suc)
    have "1 < (5::int) \<and>
      (\<forall>j. 0 < j \<and> j < attempts_made always_succeeds 0 (nat 5) \<longrightarrow> \<not> done_first ?done j)"
      using one by simp
    with Retry_schedule [of 5 ?done 1 5 always_succeeds]
    have "let m = attempts_made always_succeeds 0 (nat 5) in
         Retry ?done 5 1 5 always_succeeds = (always_succeeds (m - 1), schedule 1 5 m) \<and>
         0 < m \<and> int m \<le> 5 \<and>
         (always_succeeds (m - 1) = None \<or> int m = 5) \<and>
         (\<forall>j. Suc j < m \<longrightarrow> always_succeeds j \<noteq> None)"
      by blast
    then have "Retry ?done 5 1 5 always_succeeds = (always_succeeds (1 - 1), schedule 1 5 1)"
      unfolding Let_def one by (rule conjunct1)
    then show ?thesis
      by (simp add: always_succeeds_def schedule_def loop_segment_def)
  qed
  moreover from a have "(4::int) < 5 \<and> - (2 ^ 62) \<le> (4::int) \<and> (4::int) < 2 ^ 62 \<longrightarrow>
      next_delay 5 4 = min (2 * 4) 5" and "(5::int) \<le> 10 \<longrightarrow> next_delay 5 10 = 10"
    by blast+
  then have "next_delay 5 4 = min (2 * 4) 5 \<and> next_delay 5 10 = 10"
    by simp
  ultimately show ?thesis by simp
qed

text \<open>
  Claim C8. If the wait before attempt \<open>c\<close> is cut short by cancellation (the earlier
  attempts having failed and the earlier waits having elapsed), \<open>Retry\<close> returns
  \<^verbatim>\<open>ctx.Err()\<close> at once: the trace ends with the aborted wait and holds no call
  numbered \<open>c\<close> or later.
\<close>

theorem Retry_cancelled:
  "1 < attempts \<and> 0 < c \<and> int c < attempts \<and> done_first ctx c \<and>
   (\<forall>j < c. fn j \<noteq> None) \<and> (\<forall>j. 0 < j \<and> j < c \<longrightarrow> \<not> done_first ctx j) \<longrightarrow>
     Retry ctx attempts initial mx fn =
       (Some (ctx_err ctx), schedule initial mx c @ [Abort ((next_delay mx ^^ c) initial)]) \<and>
     (\<forall>j. Call j \<in> set (snd (Retry ctx attempts initial mx fn)) \<longrightarrow> j < c)"
proof
  assume h: "1 < attempts \<and> 0 < c \<and> int c < attempts \<and> done_first ctx c \<and>
   (\<forall>j < c. fn j \<noteq> None) \<and> (\<forall>j. 0 < j \<and> j < c \<longrightarrow> \<not> done_first ctx j)"
  then have r: "Retry ctx attempts initial mx fn =
       (Some (ctx_err ctx), schedule initial mx c @ [Abort ((next_delay mx ^^ c) initial)])"
    using retry_loop_cancelled [of c attempts 0 ctx fn mx initial]
    by (simp add: Retry_def schedule_def)
  have "\<forall>j. Call j \<in> set (snd (Retry ctx attempts initial mx fn)) \<longrightarrow> j < c"
    using Call_in_segments [of _ mx initial 0 c] by (auto simp: r schedule_def)
  with r show "Retry ctx attempts initial mx fn =
       (Some (ctx_err ctx), schedule initial mx c @ [Abort ((next_delay mx ^^ c) initial)]) \<and>
     (\<forall>j. Call j \<in> set (snd (Retry ctx attempts initial mx fn)) \<longrightarrow> j < c)"
    by simp
qed

theorem Retry_cancelled_witness:
  "Retry \<lparr>done_first = done_at 2, ctx_err = Canceled\<rparr> 5 1 5 always_fails
     = (Some Canceled, [Call 0, Sleep 2, Call 1, Abort 4])"
proof -
  let ?ctx = "\<lparr>done_first = done_at 2, ctx_err = Canceled\<rparr>"
  have s: "schedule 1 5 2 = [Call 0, Sleep 2, Call 1]"
    by (simp add: schedule_def loop_segment_def next_delay_ex upt_rec numeral_eq_Suc)
  have p: "(next_delay 5 ^^ 2) 1 = 4" by (simp add: numeral_eq_Suc next_delay_ex)
  have hyp: "1 < (5::int) \<and> 0 < (2::nat) \<and> int 2 < 5 \<and> done_first ?ctx 2 \<and>
     (\<forall>j < 2. always_fails j \<noteq> None) \<and> (\<forall>j. 0 < j \<and> j < 2 \<longrightarrow> \<not> done_first ?ctx j)"
    by (simp add: done_at_def always_fails_def)
  from Retry_cancelled [of 5 2 ?ctx always_fails 1 5] hyp
  have "Retry ?ctx 5 1 5 always_fails =
       (Some (ctx_err ?ctx), schedule 1 5 2 @ [Abort ((next_delay 5 ^^ 2) 1)])"
    by blast
  then show ?thesis by (simp add: s p)
qed

text \<open>
  Claim C10. For every context, a cancelled one included, the first event of \<open>Retry\<close> is
  the first call of the operation. With \<open>attempts \<le> 1\<close> the context is not consulted at
  all; otherwise only the waits before the attempts \<open>1, 2, ...\<close> consult it: two contexts
  that agree there give the same run.
\<close>

theorem Retry_first_attempt:
  "(\<exists>rest. snd (Retry ctx attempts initial mx fn) = Call 0 # rest) \<and>
   (attempts \<le> 1 \<longrightarrow> Retry ctx attempts initial mx fn = (fn 0, [Call 0])) \<and>
   ((\<forall>j. 0 < j \<longrightarrow> done_first ctx' j = done_first ctx j) \<and> ctx_err ctx' = ctx_err ctx \<longrightarrow>
      Retry ctx' attempts initial mx fn = Retry ctx attempts initial mx fn)"
proof (intro conjI impI)
  show "\<exists>rest. snd (Retry ctx attempts initial mx fn) = Call 0 # rest"
  proof (cases "attempts \<le> 1")
    case True
    then show ?thesis by (simp add: Retry_def)
  next
    case False
    then have "0 < attempts" by simp
    from retry_loop_first [OF this] False show ?thesis by (simp add: Retry_def)
  qed
next
  assume "attempts \<le> 1"
  then show "Retry ctx attempts initial mx fn = (fn 0, [Call 0])" by (simp add: Retry_def)
next
  assume "(\<forall>j. 0 < j \<longrightarrow> done_first ctx' j = done_first ctx j) \<and> ctx_err ctx' = ctx_err ctx"
  then show "Retry ctx' attempts initial mx fn = Retry ctx attempts initial mx fn"
    by (simp add: Retry_def retry_loop_ctx_cong)
qed

theorem Retry_first_attempt_witness:
  "Retry \<lparr>done_first = always_done, ctx_err = Canceled\<rparr> 3 10 20 always_fails
     = (Some Canceled, [Call 0, Abort 20]) \<and>
   Retry \<lparr>done_first = always_done, ctx_err = Canceled\<rparr> 1 10 20 always_fails
     = (Some (Failure ''unavailable''), [Call 0])"
proof -
  let ?ctx = "\<lparr>done_first = always_done, ctx_err = Canceled\<rparr>"
  have a: "Retry ?ctx 3 10 20 always_fails = (Some Canceled, [Call 0, Abort 20])"
    by (simp add: Retry_def retry_loop.simps next_delay_def wrap64_def Let_def
        always_done_def always_fails_def)
  from Retry_first_attempt [of ?ctx 1 10 20 always_fails ?ctx]
  have "Retry ?ctx 1 10 20 always_fails = (always_fails 0, [Call 0])" by simp
  with a show ?thesis by (simp add: always_fails_def)
qed

section \<open>Properties of the rule engine\<close>

lemma HasPrefix_iff: "HasPrefix s w \<longleftrightarrow> (\<exists>q. s = w @ q)"
  by (induction s w rule: HasPrefix.induct) auto

lemma Contains_iff: "Contains s w \<longleftrightarrow> (\<exists>p q. s = p @ w @ q)"
proof (induction s)
  case Nil
  then show ?case by auto
next
  case (Cons a s)
  show ?case
  proof
    assume "Contains (a # s) w"
    then consider "HasPrefix (a # s) w" | "Contains s w" by auto
    then show "\<exists>p q. a # s = p @ w @ q"
    proof cases
      case 1
      then obtain q where "a # s = w @ q" by (auto simp: HasPrefix_iff)
      then have "a # s = [] @ w @ q" by simp
      then show ?thesis by blast
    next
      case 2
      with Cons.IH obtain p q where "s = p @ w @ q" by blast
      then have "a # s = (a # p) @ w @ q" by simp
      then show ?thesis by blast
    qed
  next
    assume "\<exists>p q. a # s = p @ w @ q"
    then obtain p q where e: "a # s = p @ w @ q" by blast
    show "Contains (a # s) w"
    proof (cases p)
      case Nil
      with e have "HasPrefix (a # s) w" by (auto simp: HasPrefix_iff)
      then show ?thesis by simp
    next
      case (Cons b p')
      with e have "s = p' @ w @ q" by simp
      with Cons.IH have "Contains s w" by blast
      then show ?thesis by simp
    qed
  qed
qed

lemma kw_matched_iff:
  "kw_matched ws t s \<longleftrightarrow> (\<forall>w \<in> set ws. Contains t w \<or> Contains s w)"
  by (induction ws) auto

lemma normalize_words_eq:
  "normalize_words S ws = map (\<lambda>w. ToLower S (TrimSpace S w)) (filter (\<lambda>w. TrimSpace S w \<noteq> []) ws)"
  by (induction ws) (auto simp: Let_def)

lemma keyword_rules_single:
  "keyword_rules S [kr] =
     (if normalize_words S (kw_When kr) = [] then []
      else [\<lparr>ki_words = normalize_words S (kw_When kr), ki_labels = kw_Labels kr\<rparr>])"
  by (cases "kw_When kr") (auto simp: Let_def)

lemma keyword_rule_matches_iff:
  "keyword_rule_matches S kr ev \<longleftrightarrow>
     normalize_words S (kw_When kr) \<noteq> [] \<and>
     kw_matched (normalize_words S (kw_When kr)) (ToLower S (Title ev)) (ToLower S (Summary ev))"
  by (simp add: keyword_rule_matches_def keyword_rules_single del: keyword_rules.simps)

lemma keyword_rules_Cons:
  "keyword_rules S (kr # krs) = keyword_rules S [kr] @ keyword_rules S krs"
  by (simp add: Let_def)

lemma apply_keywords_append:
  "apply_keywords (xs @ ys) t s ev = apply_keywords ys t s (apply_keywords xs t s ev)"
  by (induction xs arbitrary: ev) simp_all

lemma apply_keywords_rules:
  "apply_keywords (keyword_rules S krs) (ToLower S (Title ev)) (ToLower S (Summary ev)) e =
     foldl (merge_if_matches S ev) e krs"
proof (induction krs arbitrary: e)
  case Nil
  then show ?case by simp
next
  case (Cons kr krs)
  have one: "apply_keywords (keyword_rules S [kr]) (ToLower S (Title ev)) (ToLower S (Summary ev)) e
             = merge_if_matches S ev e kr"
    by (simp add: keyword_rules_single merge_if_matches_def keyword_rule_matches_iff
        del: keyword_rules.simps)
  show ?case
    by (subst keyword_rules_Cons) (simp only: apply_keywords_append one Cons.IH foldl_Cons)
qed

lemma apply_keywords_fields:
  "apply_keywords krs t s ev = ev\<lparr>Labels := Labels (apply_keywords krs t s ev)\<rparr>"
proof (induction krs arbitrary: ev)
  case Nil
  then show ?case by simp
next
  case (Cons kr krs)
  show ?case
  proof (cases "kw_matched (ki_words kr) t s")
    case True
    have "apply_keywords krs t s (ev\<lparr>Labels := Labels ev ++ ki_labels kr\<rparr>) =
          ev\<lparr>Labels := Labels ev ++ ki_labels kr\<rparr>
            \<lparr>Labels := Labels (apply_keywords krs t s (ev\<lparr>Labels := Labels ev ++ ki_labels kr\<rparr>))\<rparr>"
      by (rule Cons.IH)
    with True show ?thesis by simp
  next
    case False
    with Cons.IH [of ev] show ?thesis by simp
  qed
qed

lemma apply_regex_fields:
  "apply_regex S m rrs ev = ev\<lparr>Labels := Labels (apply_regex S m rrs ev)\<rparr>"
proof (induction rrs arbitrary: ev)
  case Nil
  then show ?case by simp
next
  case (Cons rr rrs)
  have a: "apply_regex S m rrs (ev\<lparr>Labels := Labels ev ++ ri_labels rr\<rparr>) =
          ev\<lparr>Labels := Labels ev ++ ri_labels rr\<rparr>
            \<lparr>Labels := Labels (apply_regex S m rrs (ev\<lparr>Labels := Labels ev ++ ri_labels rr\<rparr>))\<rparr>"
    by (rule Cons.IH)
  show ?case
    using a Cons.IH [of ev] by (simp add: Let_def)
qed

lemma apply_maps_fields:
  "apply_maps S mrs ev = ev\<lparr>Labels := Labels (apply_maps S mrs ev)\<rparr>"
proof (induction mrs arbitrary: ev)
  case Nil
  then show ?case by simp
next
  case (Cons mr mrs)
  show ?case
  proof (cases "mi_mapping mr (getField S ev (mi_field mr))")
    case None
    with Cons.IH [of ev] show ?thesis by (simp add: Let_def)
  next
    case (Some mapped)
    have "apply_maps S mrs (ev\<lparr>Labels := (Labels ev)(mi_outKey mr \<mapsto> mapped)\<rparr>) =
          ev\<lparr>Labels := (Labels ev)(mi_outKey mr \<mapsto> mapped)\<rparr>
            \<lparr>Labels := Labels (apply_maps S mrs (ev\<lparr>Labels := (Labels ev)(mi_outKey mr \<mapsto> mapped)\<rparr>))\<rparr>"
      by (rule Cons.IH)
    with Some Cons.IH [of ev] show ?thesis by (simp add: Let_def)
  qed
qed

lemma apply_event_fields:
  "(apply_event S m krules rrules mrules ev)\<lparr>Labels := l\<rparr> = ev\<lparr>Labels := l\<rparr>"
proof -
  let ?e1 = "apply_keywords krules (ToLower S (Title ev)) (ToLower S (Summary ev)) ev"
  let ?e2 = "apply_regex S m rrules ?e1"
  let ?e3 = "apply_maps S mrules ?e2"
  have "?e3\<lparr>Labels := l\<rparr> = ?e2\<lparr>Labels := l\<rparr>"
    by (subst apply_maps_fields) simp
  also have "\<dots> = ?e1\<lparr>Labels := l\<rparr>"
    by (subst apply_regex_fields) simp
  also have "\<dots> = ev\<lparr>Labels := l\<rparr>"
    by (subst apply_keywords_fields) simp
  finally show ?thesis by (simp add: apply_event_def Let_def)
qed

lemma Apply_fields:
  "map (\<lambda>e. e\<lparr>Labels := l\<rparr>) (Apply S compile m evs cfg) = map (\<lambda>e. e\<lparr>Labels := l\<rparr>) evs"
  by (simp add: Apply_def Let_def apply_event_fields)

lemma Apply_length: "length (Apply S compile m evs cfg) = length evs"
  by (simp add: Apply_def Let_def)

lemma regex_rules_filter:
  "regex_rules S compile (filter (\<lambda>r. \<not> isl (compile (rx_Expr r))) rs) = regex_rules S compile rs"
  by (induction rs) (auto split: sum.splits)

lemma New_regs_fail:
  "\<exists>r \<in> set rs. isl (compile (rx_Expr r)) \<Longrightarrow> isl (New_regs compile rs acc)"
proof (induction rs arbitrary: acc)
  case Nil
  then show ?case by simp
next
  case (Cons r rs)
  show ?case
  proof (cases "compile (rx_Expr r)")
    case (Inl err)
    then show ?thesis by simp
  next
    case (Inr re)
    with Cons.prems have "\<exists>r \<in> set rs. isl (compile (rx_Expr r))" by auto
    from Cons.IH [OF this] Inr show ?thesis by simp
  qed
qed

lemma New_regs_ok:
  "\<forall>r \<in> set rs. \<not> isl (compile (rx_Expr r)) \<Longrightarrow> \<not> isl (New_regs compile rs acc)"
  by (induction rs arbitrary: acc) (auto split: sum.splits)

text \<open>
  Claim C2, as stated, fails: the code looks for each word in the title and in the
  summary separately, not in their concatenation. The rule with the word \<open>ab\<close> does not
  match the event with title \<open>a\<close> and summary \<open>b\<close>, whose concatenation contains \<open>ab\<close>.
  The strings are ASCII, on which \<open>ascii_strings\<close> is \<^verbatim>\<open>strings.ToLower\<close> and
  \<^verbatim>\<open>strings.TrimSpace\<close>.
\<close>

theorem keyword_concat_counterexample:
  "claimed_keyword_match ascii_strings \<lparr>kw_When = [''ab''], kw_Labels = [''policy'' \<mapsto> ''trade'']\<rparr>
     (blank_event\<lparr>Title := ''a'', Summary := ''b''\<rparr>) \<and>
   \<not> keyword_rule_matches ascii_strings \<lparr>kw_When = [''ab''], kw_Labels = [''policy'' \<mapsto> ''trade'']\<rparr>
     (blank_event\<lparr>Title := ''a'', Summary := ''b''\<rparr>) \<and>
   Apply ascii_strings toy_compile toy_match [blank_event\<lparr>Title := ''a'', Summary := ''b''\<rparr>]
     \<lparr>Keywords = [\<lparr>kw_When = [''ab''], kw_Labels = [''policy'' \<mapsto> ''trade'']\<rparr>],
      Regex = [], Maps = []\<rparr>
   = [blank_event\<lparr>Title := ''a'', Summary := ''b''\<rparr>]"
  by (simp add: claimed_keyword_match_def keyword_rule_matches_def blank_event_def
      ascii_strings_def to_lower_byte_def is_space_def Let_def Apply_def apply_event_def)

text \<open>
  Claim C2, amended. \<open>Apply\<close> merges the labels of the keyword rules that match, in
  configuration order, before the regex and map rules run. A keyword rule matches an
  event exactly when it has a word that \<^verbatim>\<open>strings.TrimSpace\<close> does not make empty and
  every such word, trimmed and then put in lower case by \<^verbatim>\<open>strings.ToLower\<close>, is a
  substring of the lower-case title or a substring of the lower-case summary. This
  holds for every pair \<open>S\<close> of library functions, so for Go's on any text.
\<close>

theorem keyword_rule_semantics:
  "Apply S compile MatchString evs cfg =
     map (\<lambda>ev. apply_maps S (map_rules S (Maps cfg))
                 (apply_regex S MatchString (regex_rules S compile (Regex cfg))
                   (foldl (merge_if_matches S ev) ev (Keywords cfg)))) evs \<and>
   merge_if_matches S ev e kr =
     (if keyword_rule_matches S kr ev then e\<lparr>Labels := Labels e ++ kw_Labels kr\<rparr> else e) \<and>
   (keyword_rule_matches S kr ev \<longleftrightarrow>
      normalize_words S (kw_When kr) \<noteq> [] \<and>
      (\<forall>w \<in> set (normalize_words S (kw_When kr)).
         (\<exists>p q. ToLower S (Title ev) = p @ w @ q) \<or> (\<exists>p q. ToLower S (Summary ev) = p @ w @ q))) \<and>
   normalize_words S (kw_When kr) =
     map (\<lambda>w. ToLower S (TrimSpace S w)) (filter (\<lambda>w. TrimSpace S w \<noteq> []) (kw_When kr))"
proof (intro conjI)
  show "Apply S compile MatchString evs cfg =
     map (\<lambda>ev. apply_maps S (map_rules S (Maps cfg))
                 (apply_regex S MatchString (regex_rules S compile (Regex cfg))
                   (foldl (merge_if_matches S ev) ev (Keywords cfg)))) evs"
    by (simp add: Apply_def apply_event_def Let_def apply_keywords_rules)
  show "merge_if_matches S ev e kr =
     (if keyword_rule_matches S kr ev then e\<lparr>Labels := Labels e ++ kw_Labels kr\<rparr> else e)"
    by (simp add: merge_if_matches_def)
  show "keyword_rule_matches S kr ev \<longleftrightarrow>
      normalize_words S (kw_When kr) \<noteq> [] \<and>
      (\<forall>w \<in> set (normalize_words S (kw_When kr)).
         (\<exists>p q. ToLower S (Title ev) = p @ w @ q) \<or> (\<exists>p q. ToLower S (Summary ev) = p @ w @ q))"
    by (simp only: keyword_rule_matches_iff kw_matched_iff Contains_iff)
  show "normalize_words S (kw_When kr) =
     map (\<lambda>w. ToLower S (TrimSpace S w)) (filter (\<lambda>w. TrimSpace S w \<noteq> []) (kw_When kr))"
    by (rule normalize_words_eq)
qed

lemma ex_words: "normalize_words ascii_strings [''A'', '' b ''] = [''a'', ''b'']"
  by (simp add: ascii_strings_def to_lower_byte_def is_space_def Let_def)

theorem keyword_rule_semantics_witness:
  "\<not> keyword_rule_matches ascii_strings \<lparr>kw_When = [''A'', '' b ''], kw_Labels = [''policy'' \<mapsto> ''trade'']\<rparr>
       (blank_event\<lparr>Title := ''xa'', Summary := ''A''\<rparr>) \<and>
   keyword_rule_matches ascii_strings \<lparr>kw_When = [''A'', '' b ''], kw_Labels = [''policy'' \<mapsto> ''trade'']\<rparr>
       (blank_event\<lparr>Title := ''B-side'', Summary := ''extrA''\<rparr>)"
proof -
  let ?kr = "\<lparr>kw_When = [''A'', '' b ''], kw_Labels = [''policy'' \<mapsto> ''trade'']\<rparr>"
  let ?e1 = "blank_event\<lparr>Title := ''xa'', Summary := ''A''\<rparr>"
  let ?e2 = "blank_event\<lparr>Title := ''B-side'', Summary := ''extrA''\<rparr>"
  note t1 = keyword_rule_semantics [of ascii_strings toy_compile toy_match "[]" "\<lparr>Keywords = [], Regex = [], Maps = []\<rparr>" ?e1 ?e1 ?kr]
  note t2 = keyword_rule_semantics [of ascii_strings toy_compile toy_match "[]" "\<lparr>Keywords = [], Regex = [], Maps = []\<rparr>" ?e2 ?e2 ?kr]
  have l1: "ToLower ascii_strings (Title ?e1) = ''xa''" "ToLower ascii_strings (Summary ?e1) = ''a''"
    by (simp_all add: blank_event_def ascii_strings_def to_lower_byte_def)
  have l2: "ToLower ascii_strings (Title ?e2) = ''b-side''" "ToLower ascii_strings (Summary ?e2) = ''extra''"
    by (simp_all add: blank_event_def ascii_strings_def to_lower_byte_def)
  have no: "\<not> ((\<exists>p q. ''xa'' = p @ ''b'' @ q) \<or> (\<exists>p q. ''a'' = p @ ''b'' @ q))"
    by (simp only: Contains_iff [symmetric]) simp
  have yes: "(\<exists>p q. ''b-side'' = p @ ''b'' @ q)" "(\<exists>p q. ''extra'' = p @ ''a'' @ q)"
    by (simp_all only: Contains_iff [symmetric]) simp_all
  from t1 have "keyword_rule_matches ascii_strings ?kr ?e1 \<longleftrightarrow>
      normalize_words ascii_strings (kw_When ?kr) \<noteq> [] \<and>
      (\<forall>w \<in> set (normalize_words ascii_strings (kw_When ?kr)).
         (\<exists>p q. ToLower ascii_strings (Title ?e1) = p @ w @ q) \<or> (\<exists>p q. ToLower ascii_strings (Summary ?e1) = p @ w @ q))"
    by blast
  with no have a: "\<not> keyword_rule_matches ascii_strings ?kr ?e1"
    by (simp only: l1 KeywordRule.simps ex_words) simp
  from t2 have "keyword_rule_matches ascii_strings ?kr ?e2 \<longleftrightarrow>
      normalize_words ascii_strings (kw_When ?kr) \<noteq> [] \<and>
      (\<forall>w \<in> set (normalize_words ascii_strings (kw_When ?kr)).
         (\<exists>p q. ToLower ascii_strings (Title ?e2) = p @ w @ q) \<or> (\<exists>p q. ToLower ascii_strings (Summary ?e2) = p @ w @ q))"
    by blast
  with yes have b: "keyword_rule_matches ascii_strings ?kr ?e2"
    by (simp only: l2 KeywordRule.simps ex_words) simp
  from a b show ?thesis by simp
qed

section \<open>Properties of the orchestrator\<close>

subsection \<open>The step of one source\<close>

lemma counter_value_IncCounter:
  "counter_value (IncCounter cs name labels v) name labels = counter_value cs name labels + v"
  by (simp add: counter_value_def IncCounter_def Let_def split: option.splits)

lemma push_errors_Nil_iff:
  "push_errors sinks name evs = [] \<longleftrightarrow> (\<forall>sk \<in> set sinks. sk_push sk evs = None)"
  by (induction sinks) (auto simp: push_errors_def split: option.splits)

lemma push_errors_all: "filter is_push_error (push_errors sinks name evs) = push_errors sinks name evs"
  by (induction sinks) (auto simp: push_errors_def split: option.splits)

lemma push_errors_length:
  "length (push_errors sinks name evs) = length (filter (\<lambda>sk. sk_push sk evs \<noteq> None) sinks)"
  by (induction sinks) (auto simp: push_errors_def split: option.splits)

lemma push_errors_mem:
  "sk \<in> set sinks \<Longrightarrow> sk_push sk evs = Some err \<Longrightarrow>
   LogPushError name (sk_name sk) err \<in> set (push_errors sinks name evs)"
  by (induction sinks) (auto simp: push_errors_def split: option.splits)

lemma filter_batch_keeps:
  "rs_counters (fst (filter_batch env st name evs)) = rs_counters st \<and>
   rs_total (fst (filter_batch env st name evs)) = rs_total st \<and>
   filter is_push_error (rs_log (fst (filter_batch env st name evs))) = filter is_push_error (rs_log st)"
  by (simp add: filter_batch_def Let_def split: option.splits prod.splits)

lemma deliver_success:
  assumes "\<forall>sk \<in> set (env_sinks env). sk_push sk (Apply (env_strings env) (env_compile env) (env_match env) evs (env_post env)) = None"
  shows "rs_counters (deliver env st name evs) =
           IncCounter (rs_counters st) ''events_pushed_total'' [(''source'', name)]
             (int (length evs)) \<and>
         rs_total (deliver env st name evs) = rs_total st + length evs \<and>
         filter is_push_error (rs_log (deliver env st name evs)) = filter is_push_error (rs_log st)"
  using assms push_errors_Nil_iff [of "env_sinks env" name
      "Apply (env_strings env) (env_compile env) (env_match env) evs (env_post env)"]
  by (simp add: deliver_def Let_def Apply_length)

lemma deliver_failure:
  assumes "\<exists>sk \<in> set (env_sinks env). sk_push sk (Apply (env_strings env) (env_compile env) (env_match env) evs (env_post env)) \<noteq> None"
  shows "rs_counters (deliver env st name evs) = rs_counters st \<and>
         rs_total (deliver env st name evs) = rs_total st"
  using assms push_errors_Nil_iff [of "env_sinks env" name
      "Apply (env_strings env) (env_compile env) (env_match env) evs (env_post env)"]
  by (auto simp: deliver_def Let_def)

lemma deliver_log:
  "filter is_push_error (rs_log (deliver env st name evs)) =
     filter is_push_error (rs_log st) @
     push_errors (env_sinks env) name (Apply (env_strings env) (env_compile env) (env_match env) evs (env_post env))"
  by (simp add: deliver_def Let_def push_errors_all)


text \<open>The step of a source, by cases on what it fetched and on what the filter kept.\<close>

lemma source_step_fetch_error:
  "src_fetch src = (evs, Some e) \<Longrightarrow>
   source_step env st src =
     st\<lparr>rs_log := rs_log st @ [LogFetched (src_name src) (length evs), LogFetchError (src_name src) e]\<rparr>"
  by (simp add: source_step_def)

lemma filter_batch_log_irrelevant:
  "snd (filter_batch env (st\<lparr>rs_log := l\<rparr>) name evs) = snd (filter_batch env st name evs)"
  by (simp add: filter_batch_def Let_def split: option.splits prod.splits)

lemma source_step_empty:
  assumes "src_fetch src = (evs, None)"
    and "snd (filter_batch env st (src_name src) evs) = []"
  shows "rs_counters (source_step env st src) = rs_counters st \<and>
         rs_total (source_step env st src) = rs_total st \<and>
         filter is_push_error (rs_log (source_step env st src)) = filter is_push_error (rs_log st)"
proof -
  let ?st0 = "st\<lparr>rs_log := rs_log st @ [LogFetched (src_name src) (length evs)]\<rparr>"
  obtain st1 evs1 where f: "filter_batch env ?st0 (src_name src) evs = (st1, evs1)"
    by (cases "filter_batch env ?st0 (src_name src) evs")
  have "snd (filter_batch env ?st0 (src_name src) evs) = snd (filter_batch env st (src_name src) evs)"
    by (rule filter_batch_log_irrelevant)
  with assms(2) have e: "evs1 = []" by (simp add: f)
  from filter_batch_keeps [of env ?st0 "src_name src" evs] f
  have "rs_counters st1 = rs_counters st" "rs_total st1 = rs_total st"
    "filter is_push_error (rs_log st1) = filter is_push_error (rs_log st)"
    by simp_all
  with assms(1) f e show ?thesis by (simp add: source_step_def)
qed

lemma source_step_deliver:
  assumes "src_fetch src = (evs, None)"
    and "snd (filter_batch env st (src_name src) evs) \<noteq> []"
  shows "\<exists>st1. source_step env st src =
           deliver env st1 (src_name src) (snd (filter_batch env st (src_name src) evs)) \<and>
         rs_counters st1 = rs_counters st \<and> rs_total st1 = rs_total st \<and>
         filter is_push_error (rs_log st1) = filter is_push_error (rs_log st)"
proof -
  let ?st0 = "st\<lparr>rs_log := rs_log st @ [LogFetched (src_name src) (length evs)]\<rparr>"
  obtain st1 evs1 where f: "filter_batch env ?st0 (src_name src) evs = (st1, evs1)"
    by (cases "filter_batch env ?st0 (src_name src) evs")
  have "snd (filter_batch env ?st0 (src_name src) evs) = snd (filter_batch env st (src_name src) evs)"
    by (rule filter_batch_log_irrelevant)
  then have e: "evs1 = snd (filter_batch env st (src_name src) evs)" by (simp add: f)
  from filter_batch_keeps [of env ?st0 "src_name src" evs] f
  have k: "rs_counters st1 = rs_counters st" "rs_total st1 = rs_total st"
    "filter is_push_error (rs_log st1) = filter is_push_error (rs_log st)"
    by simp_all
  from assms f e have "source_step env st src = deliver env st1 (src_name src) evs1"
    by (simp add: source_step_def)
  with e k show ?thesis by auto
qed

subsection \<open>The dedup loop\<close>













lemma filter_batch_events:
  "rs_dedup st = Some d \<Longrightarrow>
   snd (filter_batch env st name evs) = snd (snd (dedup_filter (env_clock env) (rs_tick st) d evs))"
  by (simp add: filter_batch_def Let_def split: prod.splits)

subsection \<open>The store over the later steps and cycles\<close>












subsection \<open>Examples\<close>

lemma ex_keys: "dedup_key (event_of ''gta'' ''1'') = ''gta::1''" "dedup_key (event_of ''gta'' ''2'') = ''gta::2''"
  by (simp_all add: dedup_key_def event_of_def blank_event_def)


subsection \<open>Delivery counter\<close>

text \<open>
  Claim C9. Let \<open>b\<close> be the batch that the step of a source hands to the sinks (it is
  empty when the fetch fails or the filter keeps nothing, and then nothing is pushed).
  The counter \<open>events_pushed_total\<close> of the source changes in the step if and only if
  \<open>b\<close> is not empty and the push of every sink succeeds, and it then grows by the size
  of \<open>b\<close>, as does the cycle's total. If a push fails, counters and total stay as they
  are, and the log gets one \<open>LogPushError\<close> line for each failing sink, with the names
  of the source and the sink and the error.
\<close>

theorem delivered_counter:
  "let b = pushed_batch env st src;
       st' = source_step env st src;
       c = counter_value (rs_counters st) ''events_pushed_total'' [(''source'', src_name src)];
       c' = counter_value (rs_counters st') ''events_pushed_total'' [(''source'', src_name src)];
       every_push_ok = (\<forall>sk \<in> set (env_sinks env). sk_push sk b = None)
   in (b \<noteq> [] \<and> every_push_ok \<longrightarrow>
         c' = c + int (length b) \<and> rs_total st' = rs_total st + length b \<and>
         rs_counters st' = IncCounter (rs_counters st) ''events_pushed_total''
                             [(''source'', src_name src)] (int (length b))) \<and>
      (b = [] \<or> \<not> every_push_ok \<longrightarrow>
         rs_counters st' = rs_counters st \<and> rs_total st' = rs_total st) \<and>
      (c' \<noteq> c \<longleftrightarrow> b \<noteq> [] \<and> every_push_ok) \<and>
      (b \<noteq> [] \<longrightarrow>
         (\<forall>sk \<in> set (env_sinks env). \<forall>err. sk_push sk b = Some err \<longrightarrow>
            LogPushError (src_name src) (sk_name sk) err \<in> set (rs_log st')) \<and>
         length (filter is_push_error (rs_log st')) =
           length (filter is_push_error (rs_log st)) +
           length (filter (\<lambda>sk. sk_push sk b \<noteq> None) (env_sinks env)))"
proof -
  let ?name = "src_name src"
  let ?b = "pushed_batch env st src"
  let ?st' = "source_step env st src"
  let ?c = "counter_value (rs_counters st) ''events_pushed_total'' [(''source'', ?name)]"
  let ?c' = "counter_value (rs_counters ?st') ''events_pushed_total'' [(''source'', ?name)]"
  let ?ok = "\<forall>sk \<in> set (env_sinks env). sk_push sk ?b = None"
  obtain evs err where f: "src_fetch src = (evs, err)" by (cases "src_fetch src")
  let ?fb = "snd (filter_batch env st ?name evs)"
  have idle: "rs_counters ?st' = rs_counters st \<and> rs_total ?st' = rs_total st" if "?b = []"
  proof (cases err)
    case (Some e)
    with f show ?thesis by (simp add: source_step_fetch_error)
  next
    case None
    with f that have "length ?fb = 0"
      using Apply_length [of "env_strings env" "env_compile env" "env_match env" ?fb "env_post env"]
      by (simp add: pushed_batch_def)
    then have "?fb = []" by simp
    from source_step_empty [of src evs env st] f None this show ?thesis by simp
  qed
  have pushes: "\<exists>st1. ?st' = deliver env st1 ?name ?fb \<and> rs_counters st1 = rs_counters st \<and>
      rs_total st1 = rs_total st \<and>
      filter is_push_error (rs_log st1) = filter is_push_error (rs_log st)"
    and batch: "?b = Apply (env_strings env) (env_compile env) (env_match env) ?fb (env_post env)"
    if "?b \<noteq> []"
  proof -
    from that f obtain none: "err = None" by (cases err) (simp_all add: pushed_batch_def)
    with f show batch: "?b = Apply (env_strings env) (env_compile env) (env_match env) ?fb (env_post env)"
      by (simp add: pushed_batch_def)
    with that have "?fb \<noteq> []" by (auto simp: Apply_def)
    from source_step_deliver [of src evs env st] f none this
    show "\<exists>st1. ?st' = deliver env st1 ?name ?fb \<and> rs_counters st1 = rs_counters st \<and>
      rs_total st1 = rs_total st \<and>
      filter is_push_error (rs_log st1) = filter is_push_error (rs_log st)"
      by simp
  qed
  have len: "length ?b = length ?fb" if "?b \<noteq> []"
    using batch [OF that] by (simp add: Apply_length)
  have good: "?c' = ?c + int (length ?b) \<and> rs_total ?st' = rs_total st + length ?b \<and>
         rs_counters ?st' = IncCounter (rs_counters st) ''events_pushed_total''
                             [(''source'', ?name)] (int (length ?b))"
    if ne: "?b \<noteq> []" and ok: "?ok"
  proof -
    from pushes [OF ne] obtain st1 where s: "?st' = deliver env st1 ?name ?fb"
      and k: "rs_counters st1 = rs_counters st" "rs_total st1 = rs_total st" by blast
    from ok batch [OF ne]
    have "\<forall>sk \<in> set (env_sinks env).
            sk_push sk (Apply (env_strings env) (env_compile env) (env_match env) ?fb (env_post env)) = None"
      by simp
    from deliver_success [OF this, of st1 ?name] s k len [OF ne]
    show ?thesis by (simp add: counter_value_IncCounter)
  qed
  have bad: "rs_counters ?st' = rs_counters st \<and> rs_total ?st' = rs_total st"
    if ne: "?b \<noteq> []" and nok: "\<not> ?ok"
  proof -
    from pushes [OF ne] obtain st1 where s: "?st' = deliver env st1 ?name ?fb"
      and k: "rs_counters st1 = rs_counters st" "rs_total st1 = rs_total st" by blast
    from nok batch [OF ne]
    have "\<exists>sk \<in> set (env_sinks env).
            sk_push sk (Apply (env_strings env) (env_compile env) (env_match env) ?fb (env_post env)) \<noteq> None"
      by simp
    from deliver_failure [OF this, of st1 ?name] s k show ?thesis by simp
  qed
  have c1: "?b \<noteq> [] \<and> ?ok \<longrightarrow>
         ?c' = ?c + int (length ?b) \<and> rs_total ?st' = rs_total st + length ?b \<and>
         rs_counters ?st' = IncCounter (rs_counters st) ''events_pushed_total''
                             [(''source'', ?name)] (int (length ?b))"
    using good by blast
  have c2: "?b = [] \<or> \<not> ?ok \<longrightarrow> rs_counters ?st' = rs_counters st \<and> rs_total ?st' = rs_total st"
    using idle bad by blast
  have c3: "?c' \<noteq> ?c \<longleftrightarrow> ?b \<noteq> [] \<and> ?ok"
  proof
    assume "?c' \<noteq> ?c"
    with c2 show "?b \<noteq> [] \<and> ?ok" by auto
  next
    assume h: "?b \<noteq> [] \<and> ?ok"
    then have "0 < int (length ?b)" by simp
    moreover from good h have "?c' = ?c + int (length ?b)" by blast
    ultimately show "?c' \<noteq> ?c" by linarith
  qed
  have c4: "?b \<noteq> [] \<longrightarrow>
         (\<forall>sk \<in> set (env_sinks env). \<forall>err. sk_push sk ?b = Some err \<longrightarrow>
            LogPushError ?name (sk_name sk) err \<in> set (rs_log ?st')) \<and>
         length (filter is_push_error (rs_log ?st')) =
           length (filter is_push_error (rs_log st)) +
           length (filter (\<lambda>sk. sk_push sk ?b \<noteq> None) (env_sinks env))"
  proof
    assume ne: "?b \<noteq> []"
    from pushes [OF ne] obtain st1 where s: "?st' = deliver env st1 ?name ?fb"
      and k: "filter is_push_error (rs_log st1) = filter is_push_error (rs_log st)" by blast
    have lg: "filter is_push_error (rs_log ?st') =
        filter is_push_error (rs_log st) @ push_errors (env_sinks env) ?name ?b"
      using deliver_log [of env st1 ?name ?fb] s k batch [OF ne] by simp
    have "LogPushError ?name (sk_name sk) e \<in> set (rs_log ?st')"
      if "sk \<in> set (env_sinks env)" "sk_push sk ?b = Some e" for sk e
    proof -
      from push_errors_mem [OF that, of ?name]
      have "LogPushError ?name (sk_name sk) e \<in> set (filter is_push_error (rs_log ?st'))"
        by (simp only: lg) simp
      then show ?thesis by simp
    qed
    moreover have "length (filter is_push_error (rs_log ?st')) =
           length (filter is_push_error (rs_log st)) +
           length (filter (\<lambda>sk. sk_push sk ?b \<noteq> None) (env_sinks env))"
      by (simp only: lg length_append push_errors_length)
    ultimately show "(\<forall>sk \<in> set (env_sinks env). \<forall>err. sk_push sk ?b = Some err \<longrightarrow>
            LogPushError ?name (sk_name sk) err \<in> set (rs_log ?st')) \<and>
         length (filter is_push_error (rs_log ?st')) =
           length (filter is_push_error (rs_log st)) +
           length (filter (\<lambda>sk. sk_push sk ?b \<noteq> None) (env_sinks env))"
      by blast
  qed
  from c1 c2 c3 c4 show ?thesis unfolding Let_def by (intro conjI)
qed

lemma ex_batch:
  "pushed_batch (example_env sinks) (start_state (NewDedup 10 100)) (gta_source [event_of ''gta'' ''1''])
     = [event_of ''gta'' ''1'']"
  by (simp add: pushed_batch_def gta_source_def filter_batch_def start_state_def example_env_def
      ex_keys NewDedup_def Seen_def Mark_def Let_def tick_clock_def
      evict_over_cap.simps sweep_expired.simps Apply_def apply_event_def)

theorem delivered_counter_witness:
  "counter_value (rs_counters (source_step (example_env [accepting_sink])
       (start_state (NewDedup 10 100)) (gta_source [event_of ''gta'' ''1''])))
     ''events_pushed_total'' [(''source'', ''gta'')] = 1 \<and>
   rs_counters (source_step (example_env [accepting_sink, failing_sink])
       (start_state (NewDedup 10 100)) (gta_source [event_of ''gta'' ''1''])) = Map.empty \<and>
   LogPushError ''gta'' ''victoria'' (Failure ''503'')
     \<in> set (rs_log (source_step (example_env [accepting_sink, failing_sink])
          (start_state (NewDedup 10 100)) (gta_source [event_of ''gta'' ''1''])))"
proof -
  let ?st = "start_state (NewDedup 10 100)"
  let ?src = "gta_source [event_of ''gta'' ''1'']"
  let ?good = "example_env [accepting_sink]"
  let ?mixed = "example_env [accepting_sink, failing_sink]"
  note g = delivered_counter [of ?good ?st ?src, unfolded Let_def ex_batch]
  note b = delivered_counter [of ?mixed ?st ?src, unfolded Let_def ex_batch]
  have nm: "src_name ?src = ''gta''" by (simp add: gta_source_def)
  have c0: "rs_counters ?st = Map.empty" by (simp add: start_state_def)
  have ok: "\<forall>sk \<in> set (env_sinks ?good). sk_push sk [event_of ''gta'' ''1''] = None"
    by (simp add: example_env_def accepting_sink_def accepting_push_def)
  have nok: "\<not> (\<forall>sk \<in> set (env_sinks ?mixed). sk_push sk [event_of ''gta'' ''1''] = None)"
    by (simp add: example_env_def accepting_sink_def accepting_push_def failing_sink_def failing_push_def)
  have fs: "failing_sink \<in> set (env_sinks ?mixed)"
    "sk_push failing_sink [event_of ''gta'' ''1''] = Some (Failure ''503'')"
    "sk_name failing_sink = ''victoria''"
    by (simp_all add: example_env_def failing_sink_def failing_push_def)
  from g ok have "counter_value (rs_counters (source_step ?good ?st ?src))
       ''events_pushed_total'' [(''source'', src_name ?src)]
     = counter_value (rs_counters ?st) ''events_pushed_total'' [(''source'', src_name ?src)]
       + int (length [event_of ''gta'' ''1''])"
    by blast
  then have r1: "counter_value (rs_counters (source_step ?good ?st ?src))
       ''events_pushed_total'' [(''source'', ''gta'')] = 1"
    by (simp add: nm c0 counter_value_def)
  from b nok have "rs_counters (source_step ?mixed ?st ?src) = rs_counters ?st" by blast
  then have r2: "rs_counters (source_step ?mixed ?st ?src) = Map.empty" by (simp add: c0)
  from b fs have "LogPushError (src_name ?src) (sk_name failing_sink) (Failure ''503'')
     \<in> set (rs_log (source_step ?mixed ?st ?src))"
    by blast
  then have r3: "LogPushError ''gta'' ''victoria'' (Failure ''503'')
     \<in> set (rs_log (source_step ?mixed ?st ?src))"
    by (simp add: nm fs)
  from r1 r2 r3 show ?thesis by simp
qed

subsection \<open>Dedup marks and sink failures\<close>





subsection \<open>Patterns that do not compile\<close>

text \<open>
  Claim C3. \<open>New\<close> rejects a configuration with a pattern that does not compile, but the
  orchestrator calls \<open>Apply\<close>, which compiles the patterns itself at every call and
  skips such a rule without an error: on a configuration that \<open>New\<close> rejects, \<open>Apply\<close>
  returns the event unlabelled, and the step of the source hands it to the sinks.
\<close>

theorem Apply_skips_malformed_regex:
  "New toy_compile malformed_cfg = Inl (BadPattern ''missing closing )'') \<and>
   Apply ascii_strings toy_compile toy_match [(event_of ''gta'' ''1'')\<lparr>Title := ''steel (''\<rparr>] malformed_cfg
     = [(event_of ''gta'' ''1'')\<lparr>Title := ''steel (''\<rparr>] \<and>
   pushed_batch ((example_env [accepting_sink])\<lparr>env_post := malformed_cfg\<rparr>)
       (start_state (NewDedup 10 100))
       (gta_source [(event_of ''gta'' ''1'')\<lparr>Title := ''steel (''\<rparr>])
     = [(event_of ''gta'' ''1'')\<lparr>Title := ''steel (''\<rparr>]"
proof -
  let ?ev = "(event_of ''gta'' ''1'')\<lparr>Title := ''steel (''\<rparr>"
  have a: "New toy_compile malformed_cfg = Inl (BadPattern ''missing closing )'')"
    by (simp add: New_def toy_compile_def malformed_cfg_def)
  have b: "Apply ascii_strings toy_compile toy_match [?ev] malformed_cfg = [?ev]"
    by (simp add: toy_compile_def malformed_cfg_def Apply_def apply_event_def ascii_strings_def
        is_space_def Let_def)
  have k: "dedup_key ?ev = ''gta::1''"
    by (simp add: dedup_key_def event_of_def blank_event_def)
  have f: "snd (snd (dedup_filter tick_clock 0 (NewDedup 10 100) [?ev])) = [?ev]"
    by (simp add: k Seen_def NewDedup_def Let_def)
  have c: "pushed_batch ((example_env [accepting_sink])\<lparr>env_post := malformed_cfg\<rparr>)
       (start_state (NewDedup 10 100)) (gta_source [?ev]) = [?ev]"
    by (simp add: pushed_batch_def gta_source_def filter_batch_events [of _ "NewDedup 10 100"]
          start_state_def example_env_def f b del: dedup_filter.simps)
  from a b c show ?thesis by blast
qed

text \<open>
  What holds in general: \<open>New\<close> fails exactly when some pattern does not compile;
  \<open>Apply\<close> gives the result it gives without the rules whose pattern does not compile,
  and changes nothing but the labels of the events.
\<close>

theorem malformed_regex_handling:
  "((\<exists>r \<in> set (Regex cfg). isl (compile (rx_Expr r))) \<longrightarrow> isl (New compile cfg)) \<and>
   ((\<forall>r \<in> set (Regex cfg). \<not> isl (compile (rx_Expr r))) \<longrightarrow> \<not> isl (New compile cfg)) \<and>
   Apply S compile MatchString evs cfg =
     Apply S compile MatchString evs
       (cfg\<lparr>Regex := filter (\<lambda>r. \<not> isl (compile (rx_Expr r))) (Regex cfg)\<rparr>) \<and>
   map (\<lambda>e. e\<lparr>Labels := Map.empty\<rparr>) (Apply S compile MatchString evs cfg)
     = map (\<lambda>e. e\<lparr>Labels := Map.empty\<rparr>) evs"
proof (intro conjI impI)
  assume "\<exists>r \<in> set (Regex cfg). isl (compile (rx_Expr r))"
  from New_regs_fail [OF this, of "[]"] show "isl (New compile cfg)"
    by (auto simp: New_def split: sum.splits)
next
  assume "\<forall>r \<in> set (Regex cfg). \<not> isl (compile (rx_Expr r))"
  from New_regs_ok [OF this, of "[]"] show "\<not> isl (New compile cfg)"
    by (auto simp: New_def split: sum.splits)
next
  show "Apply S compile MatchString evs cfg =
     Apply S compile MatchString evs
       (cfg\<lparr>Regex := filter (\<lambda>r. \<not> isl (compile (rx_Expr r))) (Regex cfg)\<rparr>)"
    by (simp add: Apply_def regex_rules_filter)
next
  show "map (\<lambda>e. e\<lparr>Labels := Map.empty\<rparr>) (Apply S compile MatchString evs cfg)
     = map (\<lambda>e. e\<lparr>Labels := Map.empty\<rparr>) evs"
    by (rule Apply_fields)
qed

theorem malformed_regex_handling_witness:
  "isl (New toy_compile
     \<lparr>Keywords = [],
      Regex = [\<lparr>rx_Field = ''title'', rx_Expr = ''('', rx_Labels = [''kind'' \<mapsto> ''paren'']\<rparr>,
               \<lparr>rx_Field = ''title'', rx_Expr = ''steel'', rx_Labels = [''sector'' \<mapsto> ''metal'']\<rparr>],
      Maps = []\<rparr>) \<and>
   map Labels (Apply ascii_strings toy_compile toy_match [blank_event\<lparr>Title := ''steel (''\<rparr>]
     \<lparr>Keywords = [],
      Regex = [\<lparr>rx_Field = ''title'', rx_Expr = ''('', rx_Labels = [''kind'' \<mapsto> ''paren'']\<rparr>,
               \<lparr>rx_Field = ''title'', rx_Expr = ''steel'', rx_Labels = [''sector'' \<mapsto> ''metal'']\<rparr>],
      Maps = []\<rparr>)
     = [[''sector'' \<mapsto> ''metal'']]"
proof -
  let ?bad = "\<lparr>rx_Field = ''title'', rx_Expr = ''('', rx_Labels = [''kind'' \<mapsto> ''paren'']\<rparr>"
  let ?good = "\<lparr>rx_Field = ''title'', rx_Expr = ''steel'', rx_Labels = [''sector'' \<mapsto> ''metal'']\<rparr>"
  let ?cfg = "\<lparr>Keywords = [], Regex = [?bad, ?good], Maps = []\<rparr>"
  let ?ev = "blank_event\<lparr>Title := ''steel (''\<rparr>"
  note t = malformed_regex_handling [where cfg = ?cfg and compile = toy_compile and S = ascii_strings
      and MatchString = toy_match and evs = "[?ev]"]
  have ex: "\<exists>r \<in> set (Regex ?cfg). isl (toy_compile (rx_Expr r))"
    by (simp add: toy_compile_def)
  with t have a: "isl (New toy_compile ?cfg)" by blast
  have f: "filter (\<lambda>r. \<not> isl (toy_compile (rx_Expr r))) (Regex ?cfg) = [?good]"
    by (simp add: toy_compile_def)
  from t have "Apply ascii_strings toy_compile toy_match [?ev] ?cfg =
     Apply ascii_strings toy_compile toy_match [?ev]
       (?cfg\<lparr>Regex := filter (\<lambda>r. \<not> isl (toy_compile (rx_Expr r))) (Regex ?cfg)\<rparr>)"
    by blast
  then have "map Labels (Apply ascii_strings toy_compile toy_match [?ev] ?cfg) =
     map Labels (Apply ascii_strings toy_compile toy_match [?ev] (?cfg\<lparr>Regex := [?good]\<rparr>))"
    by (simp only: f)
  also have "\<dots> = [[''sector'' \<mapsto> ''metal'']]"
    by (simp add: Apply_def apply_event_def toy_compile_def toy_match_def ascii_strings_def is_space_def
        Let_def getField_def to_lower_byte_def blank_event_def)
  finally show ?thesis using a by simp
qed

end
